theory Spec2Isabelle
  imports Main
begin

section \<open>Strings\<close>

text \<open>
  The dashboard is one JavaScript class, \<^verbatim>\<open>LogViewer\<close>, present in two
  variants: \<^verbatim>\<open>src/unnamed/part_000\<close> (the network-calling variant) and
  \<^verbatim>\<open>src/script.js\<close> (the variant whose bot start is simulated locally).

  A JavaScript string is a sequence of UTF-16 code units. It is modelled as a
  \<^typ>\<open>string\<close>, whose characters are the code units \<open>0 .. 255\<close>
  (ISO-8859-1); log lines holding code units beyond that range are outside the model.
\<close>

definition toLowerChar :: "char \<Rightarrow> char" where
  \<comment> \<open>\<^verbatim>\<open>String.prototype.toLowerCase\<close> on one code unit below 256: the letters
      \<open>A-Z\<close> and the accented capitals \<open>U+00C0 .. U+00DE\<close> without the
      multiplication sign \<open>U+00D7\<close> move up by 32, everything else stays.\<close>
  "toLowerChar c =
     (let n = (of_char c :: nat)
      in if (65 \<le> n \<and> n \<le> 90) \<or> (192 \<le> n \<and> n \<le> 222 \<and> n \<noteq> 215)
         then char_of (n + 32) else c)"

definition toLowerCase :: "string \<Rightarrow> string" where
  "toLowerCase s = map toLowerChar s"

fun startsWith :: "string \<Rightarrow> string \<Rightarrow> bool" where
  "startsWith s [] = True"
| "startsWith [] (k # ks) = False"
| "startsWith (c # cs) (k # ks) = (c = k \<and> startsWith cs ks)"

fun includesStr :: "string \<Rightarrow> string \<Rightarrow> bool" where
  \<comment> \<open>\<^verbatim>\<open>s.includes(k)\<close>: \<open>k\<close> occurs in \<open>s\<close> at some position.\<close>
  "includesStr [] k = startsWith [] k"
| "includesStr (c # cs) k = (startsWith (c # cs) k \<or> includesStr cs k)"

definition isWhiteSpace :: "char \<Rightarrow> bool" where
  \<comment> \<open>The code units below 256 that \<^verbatim>\<open>\s\<close> and \<^verbatim>\<open>trim\<close> treat as white space:
      TAB, LF, VT, FF, CR, SPACE and NO-BREAK SPACE.\<close>
  "isWhiteSpace c = ((of_char c :: nat) \<in> {9, 10, 11, 12, 13, 32, 160})"

definition isDigit :: "char \<Rightarrow> bool" where
  \<comment> \<open>\<^verbatim>\<open>\d\<close> without the unicode flag: \<open>0-9\<close> only.\<close>
  "isDigit c = (48 \<le> (of_char c :: nat) \<and> (of_char c :: nat) \<le> 57)"

definition trim :: "string \<Rightarrow> string" where
  "trim s = rev (dropWhile isWhiteSpace (rev (dropWhile isWhiteSpace s)))"

fun replaceFirst :: "string \<Rightarrow> string \<Rightarrow> string" where
  \<comment> \<open>\<^verbatim>\<open>s.replace(k, '')\<close> with a string \<open>k\<close>: the first occurrence of \<open>k\<close>
      is cut out, and \<open>s\<close> is returned as it is when \<open>k\<close> does not occur.\<close>
  "replaceFirst [] k = []"
| "replaceFirst (c # cs) k =
     (if startsWith (c # cs) k then drop (length k) (c # cs)
      else c # replaceFirst cs k)"

section \<open>The log classifier\<close>

subsection \<open>\<^verbatim>\<open>getLogClass\<close>\<close>

definition getLogClass :: "string \<Rightarrow> string" where
  "getLogClass line =
     (let lowerLine = toLowerCase line
      in if includesStr lowerLine ''error'' \<or> includesStr lowerLine ''exception''
            \<or> includesStr lowerLine ''failed'' then ''error''
         else if includesStr lowerLine ''warning'' \<or> includesStr lowerLine ''warn''
           then ''warning''
         else if includesStr lowerLine ''success'' \<or> includesStr lowerLine ''completed''
            \<or> includesStr lowerLine ''ok'' then ''success''
         else if includesStr lowerLine ''info'' \<or> includesStr lowerLine ''debug''
           then ''info''
         else '''')"

subsection \<open>Regular expressions of \<^verbatim>\<open>extractTimestamp\<close>\<close>

text \<open>
  Each of the four regular expressions is a fixed sequence of one-character
  classes inside one capturing group, so a pattern is a list of classes and
  \<^verbatim>\<open>match[1]\<close> is the whole match.
\<close>

datatype cls = Digit | Space | Lit char

fun clsOk :: "cls \<Rightarrow> char \<Rightarrow> bool" where
  "clsOk Digit c = isDigit c"
| "clsOk Space c = isWhiteSpace c"
| "clsOk (Lit k) c = (c = k)"

fun matchAt :: "cls list \<Rightarrow> string \<Rightarrow> string option" where
  \<comment> \<open>the pattern matched at the start of the text: the matched characters\<close>
  "matchAt [] s = Some []"
| "matchAt (k # ks) [] = None"
| "matchAt (k # ks) (c # cs) =
     (if clsOk k c then map_option ((#) c) (matchAt ks cs) else None)"

fun regexMatch :: "cls list \<Rightarrow> string \<Rightarrow> string option" where
  \<comment> \<open>\<^verbatim>\<open>line.match(pattern)\<close> without the global flag: the leftmost match,
      \<open>None\<close> for \<^verbatim>\<open>null\<close>\<close>
  "regexMatch p [] = matchAt p []"
| "regexMatch p (c # cs) =
     (case matchAt p (c # cs) of
        Some m \<Rightarrow> Some m
      | None \<Rightarrow> regexMatch p cs)"

definition digits :: "nat \<Rightarrow> cls list" where
  "digits n = replicate n Digit"

definition patDate :: "cls list" where
  \<comment> \<open>\<^verbatim>\<open>/(\d{4}-\d{2}-\d{2}\s\d{2}:\d{2}:\d{2})/\<close>\<close>
  "patDate = digits 4 @ [Lit CHR ''-''] @ digits 2 @ [Lit CHR ''-''] @ digits 2
     @ [Space] @ digits 2 @ [Lit CHR '':''] @ digits 2 @ [Lit CHR '':''] @ digits 2"

definition patSlash :: "cls list" where
  \<comment> \<open>\<^verbatim>\<open>/(\d{2}\/\d{2}\/\d{4}\s\d{2}:\d{2}:\d{2})/\<close>\<close>
  "patSlash = digits 2 @ [Lit CHR ''/''] @ digits 2 @ [Lit CHR ''/''] @ digits 4
     @ [Space] @ digits 2 @ [Lit CHR '':''] @ digits 2 @ [Lit CHR '':''] @ digits 2"

definition patTime :: "cls list" where
  \<comment> \<open>\<^verbatim>\<open>/(\d{2}:\d{2}:\d{2})/\<close>\<close>
  "patTime = digits 2 @ [Lit CHR '':''] @ digits 2 @ [Lit CHR '':''] @ digits 2"

definition patBracket :: "cls list" where
  \<comment> \<open>\<^verbatim>\<open>/(\[\d{4}-\d{2}-\d{2}\s\d{2}:\d{2}:\d{2}\])/\<close>\<close>
  "patBracket = [Lit CHR ''[''] @ digits 4 @ [Lit CHR ''-''] @ digits 2
     @ [Lit CHR ''-''] @ digits 2 @ [Space] @ digits 2 @ [Lit CHR '':''] @ digits 2
     @ [Lit CHR '':''] @ digits 2 @ [Lit CHR '']'']"

definition patterns :: "cls list list" where
  \<comment> \<open>the array literal of \<^verbatim>\<open>extractTimestamp\<close>, in its order\<close>
  "patterns = [patDate, patSlash, patTime, patBracket]"

fun firstMatch :: "cls list list \<Rightarrow> string \<Rightarrow> string option" where
  \<comment> \<open>the \<^verbatim>\<open>for (const pattern of patterns)\<close> loop\<close>
  "firstMatch [] line = None"
| "firstMatch (p # ps) line =
     (case regexMatch p line of
        Some m \<Rightarrow> Some m
      | None \<Rightarrow> firstMatch ps line)"

definition extractTimestamp :: "string \<Rightarrow> string option" where
  "extractTimestamp line = firstMatch patterns line"

subsection \<open>\<^verbatim>\<open>formatLogContent\<close>\<close>

fun escapeChar :: "char \<Rightarrow> string" where
  "escapeChar c =
     (if c = CHR ''&'' then ''&amp;''
      else if c = CHR ''<'' then ''&lt;''
      else if c = CHR ''>'' then ''&gt;''
      else if (of_char c :: nat) = 160 then ''&nbsp;''
      else [c])"

definition escapeHtml :: "string \<Rightarrow> string" where
  \<comment> \<open>\<^verbatim>\<open>div.textContent = text; return div.innerHTML\<close>: the browser's serialisation
      of a text node, which escapes \<open>&\<close>, \<open><\<close>, \<open>>\<close> and NO-BREAK SPACE.\<close>
  "escapeHtml text = concat (map escapeChar text)"

definition stripTimestamp :: "string \<Rightarrow> string" where
  \<comment> \<open>the first statement of \<^verbatim>\<open>formatLogContent\<close>; \<^verbatim>\<open>if (timestamp)\<close> holds for
      a string that is not empty\<close>
  "stripTimestamp line =
     (case extractTimestamp line of
        None \<Rightarrow> line
      | Some timestamp \<Rightarrow>
          if timestamp \<noteq> [] then trim (replaceFirst line timestamp) else line)"

definition formatLogContent :: "string \<Rightarrow> string" where
  "formatLogContent line = escapeHtml (stripTimestamp line)"

section \<open>The classifier as the specification words it\<close>

text \<open>
  A pattern matches a line with the text \<open>pre\<close> before the match \<open>m\<close>; it
  matches anywhere when it does so for some \<open>pre\<close>; the leftmost match is the one
  with the shortest \<open>pre\<close>.
\<close>

definition matchesWith :: "cls list \<Rightarrow> string \<Rightarrow> string \<Rightarrow> string \<Rightarrow> bool" where
  "matchesWith p line pre m = (\<exists>post. line = pre @ m @ post \<and> list_all2 clsOk p m)"

definition matchesAnywhere :: "cls list \<Rightarrow> string \<Rightarrow> bool" where
  "matchesAnywhere p line = (\<exists>pre m. matchesWith p line pre m)"

definition leftmostAt :: "cls list \<Rightarrow> string \<Rightarrow> string \<Rightarrow> string \<Rightarrow> bool" where
  "leftmostAt p line pre m =
     (matchesWith p line pre m \<and>
      (\<forall>pre' m'. matchesWith p line pre' m' \<longrightarrow> length pre \<le> length pre'))"

definition leftmostMatch :: "cls list \<Rightarrow> string \<Rightarrow> string \<Rightarrow> bool" where
  "leftmostMatch p line m = (\<exists>pre. leftmostAt p line pre m)"

text \<open>
  The categories of the specification and the CSS class each one stands for. A line
  contains a keyword case-insensitively when some piece of it and the keyword have the
  same lower-case form.
\<close>

datatype category = CatError | CatWarning | CatSuccess | CatInfo | CatNone

fun categoryClass :: "category \<Rightarrow> string" where
  "categoryClass CatError = ''error''"
| "categoryClass CatWarning = ''warning''"
| "categoryClass CatSuccess = ''success''"
| "categoryClass CatInfo = ''info''"
| "categoryClass CatNone = ''''"

definition containsCI :: "string \<Rightarrow> string \<Rightarrow> bool" where
  "containsCI line kw =
     (\<exists>pre mid post. line = pre @ mid @ post \<and> toLowerCase mid = toLowerCase kw)"

definition specCategory :: "string \<Rightarrow> category" where
  "specCategory line =
     (if containsCI line ''error'' \<or> containsCI line ''exception''
         \<or> containsCI line ''failed'' then CatError
      else if containsCI line ''warning'' \<or> containsCI line ''warn'' then CatWarning
      else if containsCI line ''success'' \<or> containsCI line ''completed''
         \<or> containsCI line ''ok'' then CatSuccess
      else if containsCI line ''info'' \<or> containsCI line ''debug'' then CatInfo
      else CatNone)"

text \<open>
  The result of trying a list of patterns in order: the leftmost match of the first
  pattern of the list that matches anywhere, or none. \<open>specOrder\<close> is the order in
  which the specification lists the four patterns.
\<close>

definition firstOf :: "cls list list \<Rightarrow> string \<Rightarrow> string option \<Rightarrow> bool" where
  "firstOf ps line r =
     (case r of
        None \<Rightarrow> (\<forall>p \<in> set ps. \<not> matchesAnywhere p line)
      | Some ts \<Rightarrow>
          (\<exists>before p after. ps = before @ p # after \<and> leftmostMatch p line ts \<and>
             (\<forall>q \<in> set before. \<not> matchesAnywhere q line)))"

definition specOrder :: "cls list list" where
  "specOrder = [patDate, patSlash, patBracket, patTime]"

section \<open>The state of the dashboard\<close>

text \<open>
  A JavaScript number is modelled as an \<^typ>\<open>int\<close>: the intervals, periods and
  counters of the dashboard are integers, exact in a double below \<open>2 ^ 53\<close>.
\<close>

datatype exn = Exn (exnName: string) (exnMessage: string)
  \<comment> \<open>a thrown \<^verbatim>\<open>Error\<close> object: its \<^verbatim>\<open>name\<close> and \<^verbatim>\<open>message\<close>\<close>

datatype completion = Returned | Threw exn

datatype json = JNull | JBool bool | JNum int | JStr string
  | JArr "json list" | JObj "(string \<times> json) list"
  \<comment> \<open>what \<^verbatim>\<open>response.json()\<close> resolves to; numbers are integers here\<close>

datatype node = Placeholder string | Line string "nat option" "string option" string
  \<comment> \<open>a child of \<^verbatim>\<open>#logContent\<close>: the \<^verbatim>\<open>div.loading\<close> message, or a
      \<^verbatim>\<open>div.log-line\<close> with its category class, its \<^verbatim>\<open>data-line\<close>, the text of
      its timestamp span and the markup that follows\<close>

datatype callback = AutoRefreshTick | ScheduleTick | ToastFade nat | ToastRemove nat

record timer =
  timerId :: nat
  timerCallback :: callback
  timerDelay :: int
  timerRepeats :: bool

record toast =
  toastId :: nat
  toastClass :: string
  toastText :: string
  toastFading :: bool

datatype variant = Networked | Simulated
  \<comment> \<open>\<^verbatim>\<open>src/unnamed/part_000\<close> and \<^verbatim>\<open>src/script.js\<close>\<close>

record viewer =
  logContent :: "node list"
  totalLines :: string
  lastUpdated :: string
  statusText :: string
  statusClass :: string
  errorText :: string
  errorDisplay :: string
  autoRefreshChecked :: bool
  startBotDisabled :: bool
  stopBotDisabled :: bool
  scheduleIntervalValue :: string
  scheduleIntervalDisabled :: bool
  scheduleUnitValue :: string
  scheduleUnitDisabled :: bool
  scheduleEnabledChecked :: bool
  scheduleEnabledDisabled :: bool
  scheduleBtn :: "bool option"
  autoRefreshInterval :: "nat option"
  isLoading :: bool
  isBotRunning :: bool
  scheduledTask :: "nat option"
  toasts :: "toast list"
  timers :: "timer list"
  nextTimerId :: nat
  requests :: "string list"
  pendingLogs :: nat
  pendingBots :: nat
  console :: "string list"
  uncaught :: "exn list"
  clock :: string

text \<open>
  The first sixteen fields are the properties of the page's elements that the class
  reads or writes. \<^const>\<open>scheduleBtn\<close> is the property \<^verbatim>\<open>this.scheduleBtn\<close>: the
  constructor never assigns it, so it is \<^verbatim>\<open>undefined\<close> (\<open>None\<close>); \<open>Some d\<close>
  would be an element whose \<^verbatim>\<open>disabled\<close> is \<open>d\<close>. The next four fields are the
  state that the constructor sets up, a timer handle being \<open>None\<close> for
  \<^verbatim>\<open>null\<close>; \<^verbatim>\<open>botScheduleInterval\<close> and \<^verbatim>\<open>scheduleSettings\<close> are never used
  and are left out. The fields after \<^const>\<open>scheduledTask\<close> are the browser: the toasts shown, the live timers and the next
  timer id, the URLs fetched so far, the numbers of log fetches and bot triggers
  whose promise has not settled, the console, the exceptions that left an event
  handler, and the local time as \<^verbatim>\<open>toLocaleTimeString\<close> prints it. The scroll position
  of the log area depends on the layout and is left out.
\<close>

subsection \<open>Numbers and text\<close>

definition digitChar :: "nat \<Rightarrow> char" where
  "digitChar d = char_of (48 + d)"

fun showNat :: "nat \<Rightarrow> string" where
  "showNat n = (if n < 10 then [digitChar n] else showNat (n div 10) @ [digitChar (n mod 10)])"

declare showNat.simps [simp del]

definition showInt :: "int \<Rightarrow> string" where
  "showInt i = (if i < 0 then CHR ''-'' # showNat (nat (- i)) else showNat (nat i))"

definition digitValue :: "nat \<Rightarrow> char \<Rightarrow> nat option" where
  \<comment> \<open>the value of a digit in radix 10 or 16\<close>
  "digitValue radix c =
     (let n = (of_char c :: nat);
          v = (if 48 \<le> n \<and> n \<le> 57 then Some (n - 48)
               else if 97 \<le> n \<and> n \<le> 102 then Some (n - 87)
               else if 65 \<le> n \<and> n \<le> 70 then Some (n - 55)
               else None)
      in case v of None \<Rightarrow> None | Some d \<Rightarrow> if d < radix then Some d else None)"

definition parseInt :: "string \<Rightarrow> int option" where
  \<comment> \<open>\<^verbatim>\<open>parseInt(text)\<close> without a radix; \<open>None\<close> is \<^verbatim>\<open>NaN\<close>\<close>
  "parseInt text =
     (let s1 = dropWhile isWhiteSpace text;
          negative = (s1 \<noteq> [] \<and> hd s1 = CHR ''-'');
          s2 = (if s1 \<noteq> [] \<and> (hd s1 = CHR ''-'' \<or> hd s1 = CHR ''+'') then tl s1 else s1);
          hex = (startsWith s2 ''0x'' \<or> startsWith s2 ''0X'');
          radix = (if hex then 16 else 10);
          s3 = (if hex then drop 2 s2 else s2);
          ds = takeWhile (\<lambda>c. digitValue radix c \<noteq> None) s3;
          magnitude = foldl (\<lambda>a c. case digitValue radix c of
                                     None \<Rightarrow> a
                                   | Some d \<Rightarrow> a * radix + d) 0 ds
      in if ds = [] then None
         else Some (if negative then - int magnitude else int magnitude))"

fun splitOn :: "char \<Rightarrow> string \<Rightarrow> string list" where
  \<comment> \<open>\<^verbatim>\<open>text.split(d)\<close> for a one-character separator\<close>
  "splitOn d [] = [[]]"
| "splitOn d (c # cs) =
     (if c = d then [] # splitOn d cs
      else (case splitOn d cs of
              [] \<Rightarrow> [[c]]
            | x # xs \<Rightarrow> (c # x) # xs))"

definition nonBlankLines :: "string \<Rightarrow> string list" where
  \<comment> \<open>\<^verbatim>\<open>logText.split('\n').filter(line => line.trim())\<close>\<close>
  "nonBlankLines logText = filter (\<lambda>line. trim line \<noteq> []) (splitOn (CHR 0x0A) logText)"

fun truthy :: "json \<Rightarrow> bool" where
  "truthy JNull = False"
| "truthy (JBool b) = b"
| "truthy (JNum n) = (n \<noteq> 0)"
| "truthy (JStr s) = (s \<noteq> [])"
| "truthy (JArr xs) = True"
| "truthy (JObj kvs) = True"

fun getProp :: "json \<Rightarrow> string \<Rightarrow> json option" where
  \<comment> \<open>\<^verbatim>\<open>result.message\<close> and \<^verbatim>\<open>result.error\<close> on a value that is not
      \<^verbatim>\<open>null\<close>; \<open>None\<close> is \<^verbatim>\<open>undefined\<close>. Of a repeated key the last one counts.\<close>
  "getProp (JObj kvs) key = map_of (rev kvs) key"
| "getProp other key = None"

fun joinWith :: "string \<Rightarrow> string list \<Rightarrow> string" where
  "joinWith sep [] = []"
| "joinWith sep [x] = x"
| "joinWith sep (x # y # ys) = x @ sep @ joinWith sep (y # ys)"

fun toStr :: "json \<Rightarrow> string" where
  \<comment> \<open>the conversion to a string that \<^verbatim>\<open>new Error(v)\<close> and \<^verbatim>\<open>textContent = v\<close> apply\<close>
  "toStr JNull = ''null''"
| "toStr (JBool b) = (if b then ''true'' else ''false'')"
| "toStr (JNum n) = showInt n"
| "toStr (JStr s) = s"
| "toStr (JArr xs) = joinWith '','' (map (\<lambda>x. if x = JNull then [] else toStr x) xs)"
| "toStr (JObj kvs) = ''[object Object]''"

definition orDefault :: "json option \<Rightarrow> string \<Rightarrow> string" where
  \<comment> \<open>\<^verbatim>\<open>v || text\<close>, then converted to a string\<close>
  "orDefault v text = (case v of None \<Rightarrow> text | Some x \<Rightarrow> if truthy x then toStr x else text)"

subsection \<open>Timers\<close>

definition setTimer :: "callback \<Rightarrow> int \<Rightarrow> bool \<Rightarrow> viewer \<Rightarrow> nat \<times> viewer" where
  \<comment> \<open>\<^verbatim>\<open>setInterval\<close> (repeating) and \<^verbatim>\<open>setTimeout\<close>: a fresh positive id\<close>
  "setTimer cb delay repeats s =
     (nextTimerId s,
      s\<lparr>timers := timers s @
           [\<lparr>timerId = nextTimerId s, timerCallback = cb, timerDelay = delay,
             timerRepeats = repeats\<rparr>],
        nextTimerId := Suc (nextTimerId s)\<rparr>)"

definition clearInterval :: "nat \<Rightarrow> viewer \<Rightarrow> viewer" where
  "clearInterval h s = s\<lparr>timers := filter (\<lambda>t. timerId t \<noteq> h) (timers s)\<rparr>"

definition scheduleTimers :: "viewer \<Rightarrow> timer list" where
  \<comment> \<open>the live timers created by \<^verbatim>\<open>scheduleBot\<close>\<close>
  "scheduleTimers s = filter (\<lambda>t. timerCallback t = ScheduleTick) (timers s)"

subsection \<open>Display helpers\<close>

definition setStatus :: "string \<Rightarrow> string \<Rightarrow> viewer \<Rightarrow> viewer" where
  "setStatus status type s =
     s\<lparr>statusText := status, statusClass := ''stat-value '' @ type\<rparr>"

definition showError :: "string \<Rightarrow> viewer \<Rightarrow> viewer" where
  "showError message s = s\<lparr>errorText := message, errorDisplay := ''flex''\<rparr>"

definition hideError :: "viewer \<Rightarrow> viewer" where
  "hideError s = s\<lparr>errorDisplay := ''none''\<rparr>"

fun isLogLine :: "node \<Rightarrow> bool" where
  "isLogLine (Line c d t b) = True"
| "isLogLine (Placeholder m) = False"

definition addLogEntry :: "string \<Rightarrow> string \<Rightarrow> viewer \<Rightarrow> viewer" where
  \<comment> \<open>the new line goes before the first child, or is appended to an empty area\<close>
  "addLogEntry message type s =
     (let children = Line type None (Some (clock s)) message # logContent s
      in s\<lparr>logContent := children,
           totalLines := showNat (length (filter isLogLine children)),
           lastUpdated := clock s\<rparr>)"

definition showToast :: "string \<Rightarrow> string \<Rightarrow> viewer \<Rightarrow> viewer" where
  \<comment> \<open>the toast is named by the id of the timeout that fades it\<close>
  "showToast message type s =
     (let t = \<lparr>toastId = nextTimerId s, toastClass = ''toast toast-'' @ type,
                toastText = message, toastFading = False\<rparr>
      in snd (setTimer (ToastFade (nextTimerId s)) 5000 False
                (s\<lparr>toasts := toasts s @ [t]\<rparr>)))"

definition clearLogs :: "viewer \<Rightarrow> viewer" where
  "clearLogs s =
     hideError (setStatus ''Cleared'' ''info''
       (s\<lparr>logContent := [Placeholder (''Logs cleared. Click '' @ [CHR 0x22] @ ''Refresh Logs''
                           @ [CHR 0x22] @ '' to reload.'')],
          totalLines := ''0''\<rparr>))"

subsection \<open>\<^verbatim>\<open>displayLogs\<close> and \<^verbatim>\<open>updateStats\<close>\<close>

definition renderLine :: "string \<Rightarrow> nat \<Rightarrow> node" where
  "renderLine line index =
     Line (getLogClass line) (Some (index + 1))
       (case extractTimestamp line of
          None \<Rightarrow> None
        | Some timestamp \<Rightarrow> if timestamp \<noteq> [] then Some timestamp else None)
       (formatLogContent line)"

definition displayLogs :: "string \<Rightarrow> viewer \<Rightarrow> viewer" where
  "displayLogs logText s =
     (if trim logText = []
      then s\<lparr>logContent := [Placeholder ''No logs found or logs.txt is empty'']\<rparr>
      else (let lines = rev (nonBlankLines logText)
            in s\<lparr>logContent := map2 renderLine lines [0 ..< length lines]\<rparr>))"

definition isTimerHandle :: "nat option \<Rightarrow> bool" where
  \<comment> \<open>\<^verbatim>\<open>if (handle)\<close>: neither \<^verbatim>\<open>null\<close> nor \<open>0\<close>\<close>
  "isTimerHandle h = (case h of None \<Rightarrow> False | Some n \<Rightarrow> n \<noteq> 0)"

definition updateStats :: "variant \<Rightarrow> string \<Rightarrow> viewer \<Rightarrow> viewer" where
  "updateStats v logText s =
     (let s1 = s\<lparr>totalLines := showNat (length (nonBlankLines logText)),
                 lastUpdated := clock s\<rparr>
      in if isBotRunning s1
         then (case v of Networked \<Rightarrow> setStatus ''Running'' ''info'' s1
                       | Simulated \<Rightarrow> setStatus ''Bot Running'' ''success'' s1)
         else if isTimerHandle (scheduledTask s1) then setStatus ''Scheduled'' ''info'' s1
         else (case v of Networked \<Rightarrow> setStatus ''Connected'' ''success'' s1
                       | Simulated \<Rightarrow> setStatus ''Bot Stopped'' ''error'' s1))"

subsection \<open>\<^verbatim>\<open>loadLogs\<close> and the auto refresh\<close>

datatype body = BodyRejected exn | Body string

datatype logsOutcome = LogsFetchRejected exn | LogsResponse nat string body
  \<comment> \<open>how the two awaits of \<^verbatim>\<open>loadLogs\<close> settle: \<^verbatim>\<open>fetch\<close> rejects, or a response
      arrives with its status, status text and what \<^verbatim>\<open>response.text()\<close> settles to\<close>

definition responseOk :: "nat \<Rightarrow> bool" where
  "responseOk status = (200 \<le> status \<and> status \<le> 299)"

definition logsUrl :: "variant \<Rightarrow> string" where
  "logsUrl v = (case v of Networked \<Rightarrow> ''http://localhost:5000/logs.txt''
                        | Simulated \<Rightarrow> ''logs.txt'')"

definition loadLogs :: "variant \<Rightarrow> viewer \<Rightarrow> viewer" where
  \<comment> \<open>\<^verbatim>\<open>loadLogs()\<close> up to its first \<^verbatim>\<open>await\<close>\<close>
  "loadLogs v s =
     (if isLoading s then s
      else (let s1 = s\<lparr>isLoading := True\<rparr>;
                s2 = (case v of Networked \<Rightarrow> s1
                              | Simulated \<Rightarrow> setStatus ''Loading...'' ''loading'' s1);
                s3 = hideError s2
            in s3\<lparr>requests := requests s3 @ [logsUrl v],
                  pendingLogs := Suc (pendingLogs s3)\<rparr>))"

definition loadLogsTry :: "variant \<Rightarrow> logsOutcome \<Rightarrow> viewer \<Rightarrow> completion \<times> viewer" where
  \<comment> \<open>the rest of the \<^verbatim>\<open>try\<close> block, once the awaited promises have settled\<close>
  "loadLogsTry v outcome s =
     (case outcome of
        LogsFetchRejected e \<Rightarrow> (Threw e, s)
      | LogsResponse status reason b \<Rightarrow>
          if \<not> responseOk status
          then (Threw (Exn ''Error''
                  (''Failed to load logs: '' @ showNat status @ '' '' @ reason)), s)
          else (case b of
                  BodyRejected e \<Rightarrow> (Threw e, s)
                | Body logText \<Rightarrow>
                    (let s1 = updateStats v logText (displayLogs logText s)
                     in (Returned,
                         case v of Networked \<Rightarrow> s1
                                 | Simulated \<Rightarrow> setStatus ''Connected'' ''success'' s1))))"

definition loadLogsCatch :: "variant \<Rightarrow> exn \<Rightarrow> viewer \<Rightarrow> viewer" where
  "loadLogsCatch v error s =
     (let s1 = s\<lparr>console := console s @ [''Error loading logs: '' @ exnMessage error]\<rparr>;
          s2 = showError (''Error loading logs: '' @ exnMessage error) s1
      in case v of Networked \<Rightarrow> s2 | Simulated \<Rightarrow> setStatus ''Error'' ''error'' s2)"

definition loadLogsFinally :: "viewer \<Rightarrow> viewer" where
  "loadLogsFinally s = s\<lparr>isLoading := False\<rparr>"

definition loadLogsResume :: "variant \<Rightarrow> logsOutcome \<Rightarrow> viewer \<Rightarrow> completion \<times> viewer" where
  \<comment> \<open>\<^verbatim>\<open>loadLogs()\<close> from the settlement of its fetch to its end\<close>
  "loadLogsResume v outcome s =
     (case loadLogsTry v outcome s of
        (Returned, s1) \<Rightarrow> (Returned, loadLogsFinally s1)
      | (Threw e, s1) \<Rightarrow> (Returned, loadLogsFinally (loadLogsCatch v e s1)))"

definition stopAutoRefresh :: "viewer \<Rightarrow> viewer" where
  "stopAutoRefresh s =
     (case autoRefreshInterval s of
        None \<Rightarrow> s
      | Some h \<Rightarrow>
          if h \<noteq> 0 then (clearInterval h s)\<lparr>autoRefreshInterval := None\<rparr> else s)"

definition startAutoRefresh :: "variant \<Rightarrow> viewer \<Rightarrow> viewer" where
  "startAutoRefresh v s =
     (let (h, s1) = setTimer AutoRefreshTick 5000 True (stopAutoRefresh s)
      in loadLogs v (s1\<lparr>autoRefreshInterval := Some h\<rparr>))"

subsection \<open>\<^verbatim>\<open>startBot\<close> and \<^verbatim>\<open>stopBot\<close>\<close>

datatype parsed = BadJson exn | Parsed json

datatype botOutcome = BotFetchRejected exn | BotResponse nat parsed
  \<comment> \<open>how the two awaits of the networked \<^verbatim>\<open>startBot\<close> settle: \<^verbatim>\<open>fetch\<close> rejects,
      or a response arrives with its status and what \<^verbatim>\<open>response.json()\<close> settles to\<close>

definition undefinedDisabled :: exn where
  \<comment> \<open>writing \<^verbatim>\<open>disabled\<close> on \<^verbatim>\<open>undefined\<close>; the wording is the engine's\<close>
  "undefinedDisabled =
     Exn ''TypeError'' ''Cannot set properties of undefined''"

definition nullProperty :: exn where
  \<comment> \<open>reading a property of \<^verbatim>\<open>null\<close>\<close>
  "nullProperty = Exn ''TypeError'' ''Cannot read properties of null''"

definition botUrl :: string where
  "botUrl = ''http://localhost:5000/process-pdfs''"

definition enterRunning :: "viewer \<Rightarrow> viewer" where
  \<comment> \<open>the assignments that open both variants of \<^verbatim>\<open>startBot\<close>\<close>
  "enterRunning s =
     s\<lparr>isBotRunning := True, startBotDisabled := True, stopBotDisabled := False,
       scheduleEnabledDisabled := True, scheduleIntervalDisabled := True,
       scheduleUnitDisabled := True\<rparr>"

definition leaveRunning :: "viewer \<Rightarrow> viewer" where
  \<comment> \<open>the assignments that open \<^verbatim>\<open>stopBot\<close> and make up the \<^verbatim>\<open>finally\<close> block of the
      networked \<^verbatim>\<open>startBot\<close>\<close>
  "leaveRunning s =
     s\<lparr>isBotRunning := False, startBotDisabled := False, stopBotDisabled := True,
       scheduleEnabledDisabled := False, scheduleIntervalDisabled := False,
       scheduleUnitDisabled := False\<rparr>"

definition startBotNetworked :: "viewer \<Rightarrow> viewer" where
  \<comment> \<open>\<^verbatim>\<open>part_000\<close>: \<^verbatim>\<open>startBot()\<close> up to its first \<^verbatim>\<open>await\<close>\<close>
  "startBotNetworked s =
     (if isBotRunning s then s
      else (let s1 = setStatus ''Running'' ''info'' (enterRunning s)
            in s1\<lparr>requests := requests s1 @ [botUrl],
                  pendingBots := Suc (pendingBots s1)\<rparr>))"

definition startBotTry :: "botOutcome \<Rightarrow> viewer \<Rightarrow> completion \<times> viewer" where
  \<comment> \<open>the rest of the \<^verbatim>\<open>try\<close> block, once the awaited promises have settled\<close>
  "startBotTry outcome s =
     (case outcome of
        BotFetchRejected e \<Rightarrow> (Threw e, s)
      | BotResponse status (BadJson e) \<Rightarrow> (Threw e, s)
      | BotResponse status (Parsed result) \<Rightarrow>
          if responseOk status
          then (if result = JNull then (Threw nullProperty, s)
                else (let msg = orDefault (getProp result ''message'')
                                  ''PDF processing started successfully''
                      in (Returned,
                          setStatus ''Completed'' ''success'' (showToast msg ''success'' s))))
          else (if result = JNull then (Threw nullProperty, s)
                else (Threw (Exn ''Error''
                        (orDefault (getProp result ''error'') ''Failed to start bot'')), s)))"

definition startBotCatch :: "exn \<Rightarrow> viewer \<Rightarrow> viewer" where
  "startBotCatch error s =
     (let s1 = s\<lparr>console := console s @ [''Error starting bot: '' @ exnMessage error]\<rparr>;
          s2 = setStatus ''Error'' ''error'' s1;
          s3 = showToast (''Error: '' @ exnMessage error) ''error'' s2
      in addLogEntry (''Error starting bot: '' @ exnMessage error) ''error'' s3)"

definition startBotResume :: "botOutcome \<Rightarrow> viewer \<Rightarrow> completion \<times> viewer" where
  \<comment> \<open>the networked \<^verbatim>\<open>startBot()\<close> from the settlement of its fetch to its end\<close>
  "startBotResume outcome s =
     (case startBotTry outcome s of
        (Returned, s1) \<Rightarrow> (Returned, leaveRunning s1)
      | (Threw e, s1) \<Rightarrow> (Returned, leaveRunning (startBotCatch e s1)))"

definition startBotSimulated :: "viewer \<Rightarrow> completion \<times> viewer" where
  \<comment> \<open>\<^verbatim>\<open>script.js\<close>: the whole of \<^verbatim>\<open>startBot()\<close>\<close>
  "startBotSimulated s =
     (if isBotRunning s then (Returned, s)
      else (let s1 = enterRunning s
            in case scheduleBtn s1 of
                 None \<Rightarrow> (Threw undefinedDisabled, s1)
               | Some d \<Rightarrow>
                   (let s2 = s1\<lparr>scheduleBtn := Some True\<rparr>;
                        s3 = addLogEntry ''Bot started successfully'' ''success'' s2;
                        s4 = setStatus ''Bot Running'' ''success'' s3
                    in (Returned,
                        if \<not> isTimerHandle (autoRefreshInterval s4)
                        then startAutoRefresh Simulated (s4\<lparr>autoRefreshChecked := True\<rparr>)
                        else s4))))"

definition startBot :: "variant \<Rightarrow> viewer \<Rightarrow> completion \<times> viewer" where
  "startBot v s =
     (case v of Networked \<Rightarrow> (Returned, startBotNetworked s)
              | Simulated \<Rightarrow> startBotSimulated s)"

definition clearScheduledTask :: "viewer \<Rightarrow> viewer" where
  "clearScheduledTask s =
     (case scheduledTask s of
        None \<Rightarrow> s
      | Some h \<Rightarrow> if h \<noteq> 0 then (clearInterval h s)\<lparr>scheduledTask := None\<rparr> else s)"

definition stopBot :: "viewer \<Rightarrow> completion \<times> viewer" where
  \<comment> \<open>the same text in both variants\<close>
  "stopBot s =
     (if \<not> isBotRunning s then (Returned, s)
      else (let s1 = leaveRunning s
            in case scheduleBtn s1 of
                 None \<Rightarrow> (Threw undefinedDisabled, s1)
               | Some d \<Rightarrow>
                   (let s2 = clearScheduledTask (s1\<lparr>scheduleBtn := Some False\<rparr>);
                        s3 = addLogEntry ''Bot stopped'' ''info'' s2
                    in (Returned, setStatus ''Bot Stopped'' ''error'' s3))))"

subsection \<open>The schedule\<close>

definition scheduleTick :: "variant \<Rightarrow> viewer \<Rightarrow> completion \<times> viewer" where
  \<comment> \<open>the function given to \<^verbatim>\<open>setInterval\<close> by \<^verbatim>\<open>scheduleBot\<close>\<close>
  "scheduleTick v s =
     (case (if \<not> isBotRunning s then startBot v s else (Returned, s)) of
        (Threw e, s1) \<Rightarrow> (Threw e, s1)
      | (Returned, s1) \<Rightarrow> (Returned, addLogEntry ''Scheduled bot task executed'' ''info'' s1))"

definition scheduleBot :: "variant \<Rightarrow> int \<Rightarrow> viewer \<Rightarrow> completion \<times> viewer" where
  "scheduleBot v intervalMs s =
     (let (h, s1) = setTimer ScheduleTick intervalMs True (clearScheduledTask s);
          s2 = s1\<lparr>scheduledTask := Some h\<rparr>
      in if \<not> isBotRunning s2 then startBot v s2 else (Returned, s2))"

definition intervalOf :: "string \<Rightarrow> int" where
  \<comment> \<open>\<^verbatim>\<open>parseInt(value) || 5\<close>\<close>
  "intervalOf text = (case parseInt text of None \<Rightarrow> 5 | Some n \<Rightarrow> if n = 0 then 5 else n)"

definition millisecondsOf :: "int \<Rightarrow> string \<Rightarrow> int" where
  "millisecondsOf interval unit =
     (let ms0 = interval * 1000;
          ms1 = (if unit = ''minutes'' then interval * 60 * 1000 else ms0)
      in if unit = ''hours'' then interval * 60 * 60 * 1000 else ms1)"

definition enableSchedule :: "variant \<Rightarrow> viewer \<Rightarrow> completion \<times> viewer" where
  "enableSchedule v s =
     (let interval = intervalOf (scheduleIntervalValue s);
          unit = scheduleUnitValue s;
          milliseconds = millisecondsOf interval unit
      in if milliseconds < 1000
         then (Returned,
               (showError ''Interval must be at least 1 second'' s)
                 \<lparr>scheduleEnabledChecked := False\<rparr>)
         else (case scheduleBot v milliseconds s of
                 (Threw e, s1) \<Rightarrow> (Threw e, s1)
               | (Returned, s1) \<Rightarrow>
                   (Returned,
                    addLogEntry (''Bot scheduled to run every '' @ showInt interval
                                   @ '' '' @ unit) ''info'' s1)))"

definition disableSchedule :: "viewer \<Rightarrow> viewer" where
  "disableSchedule s = addLogEntry ''Schedule disabled'' ''info'' (clearScheduledTask s)"

definition handleScheduleToggle :: "variant \<Rightarrow> viewer \<Rightarrow> completion \<times> viewer" where
  "handleScheduleToggle v s =
     (if scheduleEnabledChecked s then enableSchedule v s
      else (Returned, disableSchedule s))"

definition updateScheduleIfEnabled :: "variant \<Rightarrow> viewer \<Rightarrow> completion \<times> viewer" where
  "updateScheduleIfEnabled v s =
     (if scheduleEnabledChecked s then enableSchedule v s else (Returned, s))"

subsection \<open>Events\<close>

datatype event =
    ClickRefresh | ClickClear | ChangeAutoRefresh bool
  | ClickStartBot | ClickStopBot
  | ChangeScheduleEnabled bool | ChangeScheduleInterval string | ChangeScheduleUnit string
  | TimerFires nat | LogsSettled logsOutcome | BotSettled botOutcome
  | CloseToast nat | VisibilityChange bool | ClockShows string

definition handled :: "completion \<times> viewer \<Rightarrow> viewer" where
  \<comment> \<open>an exception that leaves a listener or a timer function is reported and dropped\<close>
  "handled r =
     (case r of
        (Returned, s) \<Rightarrow> s
      | (Threw e, s) \<Rightarrow> s\<lparr>uncaught := uncaught s @ [e]\<rparr>)"

definition removeToast :: "nat \<Rightarrow> viewer \<Rightarrow> viewer" where
  "removeToast k s = s\<lparr>toasts := filter (\<lambda>t. toastId t \<noteq> k) (toasts s)\<rparr>"

definition fireTimer :: "variant \<Rightarrow> timer \<Rightarrow> viewer \<Rightarrow> viewer" where
  "fireTimer v t s =
     (let s1 = (if timerRepeats t then s else clearInterval (timerId t) s)
      in case timerCallback t of
           AutoRefreshTick \<Rightarrow> loadLogs v s1
         | ScheduleTick \<Rightarrow> handled (scheduleTick v s1)
         | ToastFade k \<Rightarrow>
             snd (setTimer (ToastRemove k) 500 False
                    (s1\<lparr>toasts := map (\<lambda>x. if toastId x = k then x\<lparr>toastFading := True\<rparr> else x)
                                     (toasts s1)\<rparr>))
         | ToastRemove k \<Rightarrow> removeToast k s1)"

fun step :: "variant \<Rightarrow> event \<Rightarrow> viewer \<Rightarrow> viewer" where
  "step v ClickRefresh s = loadLogs v s"
| "step v ClickClear s = clearLogs s"
| "step v (ChangeAutoRefresh checked) s =
     (if checked then startAutoRefresh v (s\<lparr>autoRefreshChecked := checked\<rparr>)
      else stopAutoRefresh (s\<lparr>autoRefreshChecked := checked\<rparr>))"
| "step v ClickStartBot s = handled (startBot v s)"
| "step v ClickStopBot s = handled (stopBot s)"
| "step v (ChangeScheduleEnabled checked) s =
     handled (handleScheduleToggle v (s\<lparr>scheduleEnabledChecked := checked\<rparr>))"
| "step v (ChangeScheduleInterval text) s =
     handled (updateScheduleIfEnabled v (s\<lparr>scheduleIntervalValue := text\<rparr>))"
| "step v (ChangeScheduleUnit text) s =
     handled (updateScheduleIfEnabled v (s\<lparr>scheduleUnitValue := text\<rparr>))"
| "step v (TimerFires h) s =
     (case find (\<lambda>t. timerId t = h) (timers s) of
        None \<Rightarrow> s
      | Some t \<Rightarrow> fireTimer v t s)"
| "step v (LogsSettled outcome) s =
     (if pendingLogs s = 0 then s
      else handled (loadLogsResume v outcome (s\<lparr>pendingLogs := pendingLogs s - 1\<rparr>)))"
| "step v (BotSettled outcome) s =
     (if pendingBots s = 0 then s
      else handled (startBotResume outcome (s\<lparr>pendingBots := pendingBots s - 1\<rparr>)))"
| "step v (CloseToast k) s = removeToast k s"
| "step v (VisibilityChange hidden) s = s"
| "step v (ClockShows text) s = s\<lparr>clock := text\<rparr>"

definition run :: "variant \<Rightarrow> event list \<Rightarrow> viewer \<Rightarrow> viewer" where
  "run v events s = foldl (\<lambda>s e. step v e s) s events"

definition constructed :: "viewer \<Rightarrow> bool" where
  \<comment> \<open>what the constructor leaves, whatever the page's markup sets on its elements\<close>
  "constructed s =
     (autoRefreshInterval s = None \<and> \<not> isLoading s \<and> \<not> isBotRunning s \<and>
      scheduledTask s = None \<and> scheduleBtn s = None \<and> toasts s = [] \<and>
      timers s = [] \<and> 0 < nextTimerId s \<and> requests s = [] \<and>
      pendingLogs s = 0 \<and> pendingBots s = 0 \<and> uncaught s = [])"

definition examplePage :: viewer where
  \<comment> \<open>a page as the constructor leaves it: stop disabled, schedule every 5 minutes, off\<close>
  "examplePage =
     \<lparr>logContent = [Placeholder ''Loading logs...''], totalLines = ''0'',
      lastUpdated = ''Never'', statusText = ''Initializing'', statusClass = ''stat-value'',
      errorText = '''', errorDisplay = ''none'', autoRefreshChecked = False,
      startBotDisabled = False, stopBotDisabled = True,
      scheduleIntervalValue = ''5'', scheduleIntervalDisabled = False,
      scheduleUnitValue = ''minutes'', scheduleUnitDisabled = False,
      scheduleEnabledChecked = False, scheduleEnabledDisabled = False,
      scheduleBtn = None, autoRefreshInterval = None, isLoading = False,
      isBotRunning = False, scheduledTask = None, toasts = [], timers = [],
      nextTimerId = 1, requests = [], pendingLogs = 0, pendingBots = 0,
      console = [], uncaught = [], clock = ''10:00:00 AM''\<rparr>"

section \<open>Predicates used in the properties\<close>






text \<open>
  The timer invariant of the reachable states, on the four fields it reads: timer ids
  are positive, distinct and below the next id; a schedule timer repeats; the schedule
  timers are exactly the one that \<^const>\<open>scheduledTask\<close> holds, if any; and the handle of
  the auto refresh is not a schedule timer.
\<close>

definition timerView :: "viewer \<Rightarrow> timer list \<times> nat \<times> nat option \<times> nat option" where
  "timerView s = (timers s, nextTimerId s, scheduledTask s, autoRefreshInterval s)"

definition timersOk :: "timer list \<times> nat \<times> nat option \<times> nat option \<Rightarrow> bool" where
  "timersOk w =
     (case w of (ts, next, task, refresh) \<Rightarrow>
        0 < next \<and> distinct (map timerId ts) \<and>
        (\<forall>t \<in> set ts. 0 < timerId t \<and> timerId t < next \<and>
                       (timerCallback t = ScheduleTick \<longrightarrow> timerRepeats t)) \<and>
        map timerId (filter (\<lambda>t. timerCallback t = ScheduleTick) ts) =
          (case task of None \<Rightarrow> [] | Some h \<Rightarrow> [h]) \<and>
        (\<forall>h. refresh = Some h \<longrightarrow>
           h < next \<and> h \<notin> timerId ` {t \<in> set ts. timerCallback t = ScheduleTick}))"

definition schedInv :: "viewer \<Rightarrow> bool" where
  "schedInv s = timersOk (timerView s)"

text \<open>
  The loading invariant: one log fetch is pending when the loading flag is set, none
  otherwise; and \<^verbatim>\<open>this.scheduleBtn\<close> stays \<^verbatim>\<open>undefined\<close>.
\<close>

definition loadView :: "viewer \<Rightarrow> bool \<times> nat \<times> bool option" where
  "loadView s = (isLoading s, pendingLogs s, scheduleBtn s)"

definition loadInv :: "viewer \<Rightarrow> bool" where
  "loadInv s = (case loadView s of (loading, pending, btn) \<Rightarrow>
                  pending = (if loading then 1 else 0) \<and> btn = None)"

text \<open>
  The period that \<^const>\<open>enableSchedule\<close> computes from the two schedule inputs.
\<close>

definition acceptedMs :: "viewer \<Rightarrow> int" where
  "acceptedMs s = millisecondsOf (intervalOf (scheduleIntervalValue s)) (scheduleUnitValue s)"

section \<open>Properties of the classifier\<close>

subsection \<open>Searching and matching\<close>

lemma startsWith_iff: "startsWith s k \<longleftrightarrow> (\<exists>r. s = k @ r)"
  by (induction s k rule: startsWith.induct) auto

lemma includesStr_iff: "includesStr s k \<longleftrightarrow> (\<exists>p r. s = p @ k @ r)"
proof (induction s)
  case Nil
  show ?case by (cases k) auto
next
  case (Cons c cs)
  show ?case
  proof
    assume "includesStr (c # cs) k"
    then consider "startsWith (c # cs) k" | "includesStr cs k" by auto
    then show "\<exists>p r. c # cs = p @ k @ r"
    proof cases
      case 1
      then obtain r where "c # cs = k @ r" using startsWith_iff by blast
      then have "c # cs = [] @ k @ r" by simp
      then show ?thesis by blast
    next
      case 2
      then obtain p r where "cs = p @ k @ r" using Cons.IH by blast
      then have "c # cs = (c # p) @ k @ r" by simp
      then show ?thesis by blast
    qed
  next
    assume "\<exists>p r. c # cs = p @ k @ r"
    then obtain p r where e: "c # cs = p @ k @ r" by blast
    show "includesStr (c # cs) k"
    proof (cases p)
      case Nil
      with e have "startsWith (c # cs) k" using startsWith_iff by auto
      then show ?thesis by simp
    next
      case (Cons a p')
      with e have "cs = p' @ k @ r" by simp
      then have "includesStr cs k" using Cons.IH by blast
      then show ?thesis by simp
    qed
  qed
qed

lemma matchAt_Some_iff:
  "matchAt p s = Some m \<longleftrightarrow> (\<exists>r. s = m @ r \<and> list_all2 clsOk p m)"
proof (induction p s arbitrary: m rule: matchAt.induct)
  case (1 s)
  show ?case by auto
next
  case (2 k ks)
  show ?case by (auto simp: list_all2_Cons1)
next
  case (3 k ks c cs)
  show ?case
  proof (cases "clsOk k c")
    case True
    then show ?thesis using 3 by (auto simp: list_all2_Cons1)
  next
    case False
    then show ?thesis by (auto simp: list_all2_Cons1)
  qed
qed

lemma matchAt_None_iff:
  "matchAt p s = None \<longleftrightarrow> (\<forall>m r. s = m @ r \<longrightarrow> \<not> list_all2 clsOk p m)"
  using matchAt_Some_iff [of p s] by (cases "matchAt p s") auto

lemma matchesWith_Nil: "matchesWith p s [] m \<longleftrightarrow> matchAt p s = Some m"
  by (simp add: matchesWith_def matchAt_Some_iff)

lemma matchesWith_Cons:
  "matchesWith p (c # cs) pre m \<longleftrightarrow>
     (pre = [] \<and> matchAt p (c # cs) = Some m) \<or>
     (\<exists>pre'. pre = c # pre' \<and> matchesWith p cs pre' m)"
  by (cases pre) (auto simp: matchesWith_def matchAt_Some_iff)

lemma regexMatch_Some_leftmost:
  "regexMatch p s = Some m \<Longrightarrow> \<exists>pre. leftmostAt p s pre m"
proof (induction s)
  case Nil
  then have "matchesWith p [] [] m" by (simp add: matchesWith_Nil)
  then have "leftmostAt p [] [] m" by (simp add: leftmostAt_def)
  then show ?case by blast
next
  case (Cons c cs)
  show ?case
  proof (cases "matchAt p (c # cs)")
    case (Some m0)
    with Cons.prems have "matchAt p (c # cs) = Some m" by simp
    then have "leftmostAt p (c # cs) [] m"
      by (simp add: leftmostAt_def matchesWith_Nil)
    then show ?thesis by blast
  next
    case None
    with Cons.prems have "regexMatch p cs = Some m" by simp
    then obtain pre where l: "leftmostAt p cs pre m" using Cons.IH by blast
    have "leftmostAt p (c # cs) (c # pre) m"
      unfolding leftmostAt_def
    proof (intro conjI allI impI)
      show "matchesWith p (c # cs) (c # pre) m"
        using l by (simp add: leftmostAt_def matchesWith_Cons)
    next
      fix pre' m'
      assume "matchesWith p (c # cs) pre' m'"
      then obtain q where "pre' = c # q" and "matchesWith p cs q m'"
        using None by (auto simp: matchesWith_Cons)
      then show "length (c # pre) \<le> length pre'"
        using l unfolding leftmostAt_def by auto
    qed
    then show ?thesis by blast
  qed
qed

lemma regexMatch_None_no_match:
  "regexMatch p s = None \<Longrightarrow> \<not> matchesWith p s pre m"
proof (induction s arbitrary: pre)
  case Nil
  then show ?case by (simp add: matchesWith_def matchAt_None_iff)
next
  case (Cons c cs)
  from Cons.prems have n: "matchAt p (c # cs) = None" and r: "regexMatch p cs = None"
    by (auto split: option.splits)
  show ?case using n Cons.IH [OF r] by (auto simp: matchesWith_Cons)
qed

lemma regexMatch_None_iff: "regexMatch p s = None \<longleftrightarrow> \<not> matchesAnywhere p s"
proof
  assume "regexMatch p s = None"
  then show "\<not> matchesAnywhere p s"
    using regexMatch_None_no_match by (auto simp: matchesAnywhere_def)
next
  assume a: "\<not> matchesAnywhere p s"
  show "regexMatch p s = None"
  proof (cases "regexMatch p s")
    case None
    then show ?thesis .
  next
    case (Some m)
    then obtain pre where "leftmostAt p s pre m"
      using regexMatch_Some_leftmost by blast
    then have "matchesAnywhere p s"
      by (auto simp: leftmostAt_def matchesAnywhere_def)
    with a show ?thesis by simp
  qed
qed

lemma leftmostAt_unique:
  assumes "leftmostAt p s pre m" and "leftmostAt p s pre' m'"
  shows "pre' = pre \<and> m' = m"
proof -
  from assms have l: "length pre = length pre'"
    by (meson leftmostAt_def le_antisym)
  from assms(1) obtain post where e1: "s = pre @ m @ post" and a1: "list_all2 clsOk p m"
    unfolding leftmostAt_def matchesWith_def by blast
  from assms(2) obtain post' where e2: "s = pre' @ m' @ post'" and a2: "list_all2 clsOk p m'"
    unfolding leftmostAt_def matchesWith_def by blast
  note e = e1 e2 and a = a1 a2
  from a have "length m = length m'" by (simp add: list_all2_lengthD [symmetric])
  with e l show ?thesis by auto
qed

lemma regexMatch_Some_iff: "regexMatch p s = Some m \<longleftrightarrow> leftmostMatch p s m"
proof
  assume "regexMatch p s = Some m"
  then show "leftmostMatch p s m"
    using regexMatch_Some_leftmost by (simp add: leftmostMatch_def)
next
  assume "leftmostMatch p s m"
  then obtain pre where l: "leftmostAt p s pre m" by (auto simp: leftmostMatch_def)
  then have "matchesAnywhere p s" by (auto simp: leftmostAt_def matchesAnywhere_def)
  then obtain m' where s: "regexMatch p s = Some m'"
    using regexMatch_None_iff by (cases "regexMatch p s") auto
  then obtain pre' where "leftmostAt p s pre' m'"
    using regexMatch_Some_leftmost by blast
  with l have "m' = m" using leftmostAt_unique by blast
  with s show "regexMatch p s = Some m" by simp
qed

subsection \<open>Categories\<close>

lemma containsCI_iff:
  "containsCI line kw \<longleftrightarrow> includesStr (toLowerCase line) (toLowerCase kw)"
proof -
  have "(\<exists>p r. map toLowerChar line = p @ map toLowerChar kw @ r) \<longleftrightarrow>
        (\<exists>pre mid post. line = pre @ mid @ post \<and> map toLowerChar mid = map toLowerChar kw)"
    (is "?L \<longleftrightarrow> ?R")
  proof
    assume ?L
    then obtain p r where "map toLowerChar line = p @ (map toLowerChar kw @ r)" by blast
    then obtain pre rest where l: "line = pre @ rest"
      and r: "map toLowerChar rest = map toLowerChar kw @ r"
      by (metis map_eq_append_conv)
    from r obtain mid post where "rest = mid @ post" "map toLowerChar mid = map toLowerChar kw"
      by (metis map_eq_append_conv)
    with l show ?R by blast
  next
    assume ?R
    then obtain pre mid post where "line = pre @ mid @ post"
      and "map toLowerChar mid = map toLowerChar kw" by blast
    then have "map toLowerChar line =
      map toLowerChar pre @ map toLowerChar kw @ map toLowerChar post" by simp
    then show ?L by blast
  qed
  then show ?thesis
    by (simp add: containsCI_def includesStr_iff toLowerCase_def)
qed

lemma keywords_lower:
  "toLowerCase ''error'' = ''error''" "toLowerCase ''exception'' = ''exception''"
  "toLowerCase ''failed'' = ''failed''" "toLowerCase ''warning'' = ''warning''"
  "toLowerCase ''warn'' = ''warn''" "toLowerCase ''success'' = ''success''"
  "toLowerCase ''completed'' = ''completed''" "toLowerCase ''ok'' = ''ok''"
  "toLowerCase ''info'' = ''info''" "toLowerCase ''debug'' = ''debug''"
  by code_simp+

text \<open>
  Claim C7. \<^const>\<open>getLogClass\<close> gives the class of the category that the
  specification's case-insensitive search assigns, in the priority order error,
  warning, success, info, none; and a line that contains \<open>error\<close>, \<open>exception\<close>
  or \<open>failed\<close> in any letter case is classified as error, whatever else it contains.
\<close>

theorem getLogClass_priority:
  "getLogClass line = categoryClass (specCategory line) \<and>
   (containsCI line ''error'' \<or> containsCI line ''exception'' \<or> containsCI line ''failed''
      \<longrightarrow> getLogClass line = ''error'')"
  by (simp add: getLogClass_def specCategory_def containsCI_iff keywords_lower Let_def)

text \<open>
  Witness for C7: a line with \<open>WARN\<close>, \<open>Failed\<close> and \<open>ok\<close> is an error line.
\<close>

theorem getLogClass_priority_witness:
  "containsCI ''WARN: job Failed, retry ok'' ''failed'' \<and>
   getLogClass ''WARN: job Failed, retry ok'' = ''error''"
proof -
  have "includesStr (toLowerCase ''WARN: job Failed, retry ok'') (toLowerCase ''failed'')"
    by code_simp
  then have h: "containsCI ''WARN: job Failed, retry ok'' ''failed''"
    by (simp only: containsCI_iff)
  with getLogClass_priority [of "''WARN: job Failed, retry ok''"] show ?thesis by blast
qed

subsection \<open>The order of the patterns\<close>

lemma firstMatch_None_iff:
  "firstMatch ps line = None \<longleftrightarrow> (\<forall>p \<in> set ps. \<not> matchesAnywhere p line)"
proof (induction ps)
  case Nil
  show ?case by simp
next
  case (Cons a ps)
  show ?case
  proof (cases "regexMatch a line")
    case None
    then have "\<not> matchesAnywhere a line" by (simp add: regexMatch_None_iff)
    with None Cons.IH show ?thesis by simp
  next
    case (Some m)
    then have "matchesAnywhere a line"
      using regexMatch_None_iff [of a line] by auto
    with Some show ?thesis by auto
  qed
qed

lemma leftmostMatch_anywhere: "leftmostMatch p line ts \<Longrightarrow> matchesAnywhere p line"
  by (auto simp: leftmostMatch_def leftmostAt_def matchesAnywhere_def)

lemma firstMatch_Some_iff:
  "firstMatch ps line = Some ts \<longleftrightarrow>
     (\<exists>before p after. ps = before @ p # after \<and> leftmostMatch p line ts \<and>
        (\<forall>q \<in> set before. \<not> matchesAnywhere q line))"
proof (induction ps)
  case Nil
  show ?case by simp
next
  case (Cons a ps)
  show ?case
  proof (cases "regexMatch a line")
    case None
    then have n: "\<not> matchesAnywhere a line" by (simp add: regexMatch_None_iff)
    have "(\<exists>before p after. a # ps = before @ p # after \<and> leftmostMatch p line ts \<and>
            (\<forall>q \<in> set before. \<not> matchesAnywhere q line)) \<longleftrightarrow>
          (\<exists>before p after. ps = before @ p # after \<and> leftmostMatch p line ts \<and>
            (\<forall>q \<in> set before. \<not> matchesAnywhere q line))" (is "?L \<longleftrightarrow> ?R")
    proof
      assume ?L
      then obtain before p after where e: "a # ps = before @ p # after"
        and l: "leftmostMatch p line ts" and b: "\<forall>q \<in> set before. \<not> matchesAnywhere q line"
        by blast
      show ?R
      proof (cases before)
        case Nil
        with e l n show ?thesis using leftmostMatch_anywhere by auto
      next
        case (Cons x before')
        with e have "ps = before' @ p # after" by simp
        moreover from b Cons have "\<forall>q \<in> set before'. \<not> matchesAnywhere q line" by simp
        ultimately show ?thesis using l by blast
      qed
    next
      assume ?R
      then obtain before p after where e: "ps = before @ p # after"
        and l: "leftmostMatch p line ts" and b: "\<forall>q \<in> set before. \<not> matchesAnywhere q line"
        by blast
      from e have "a # ps = (a # before) @ p # after" by simp
      moreover from b n have "\<forall>q \<in> set (a # before). \<not> matchesAnywhere q line" by simp
      ultimately show ?L using l by blast
    qed
    with None Cons.IH show ?thesis by simp
  next
    case (Some m)
    then have lm: "leftmostMatch a line m" by (simp add: regexMatch_Some_iff)
    have "(\<exists>before p after. a # ps = before @ p # after \<and> leftmostMatch p line ts \<and>
            (\<forall>q \<in> set before. \<not> matchesAnywhere q line)) \<longleftrightarrow> m = ts" (is "?L \<longleftrightarrow> _")
    proof
      assume ?L
      then obtain before p after where e: "a # ps = before @ p # after"
        and l: "leftmostMatch p line ts" and b: "\<forall>q \<in> set before. \<not> matchesAnywhere q line"
        by blast
      show "m = ts"
      proof (cases before)
        case Nil
        with e l have "leftmostMatch a line ts" by simp
        then have "regexMatch a line = Some ts" by (simp add: regexMatch_Some_iff)
        with Some show ?thesis by simp
      next
        case (Cons x before')
        with e b have "\<not> matchesAnywhere a line" by simp
        with lm show ?thesis using leftmostMatch_anywhere by blast
      qed
    next
      assume "m = ts"
      with lm have "a # ps = [] @ a # ps \<and> leftmostMatch a line ts \<and>
        (\<forall>q \<in> set []. \<not> matchesAnywhere q line)" by simp
      then show ?L by blast
    qed
    with Some show ?thesis by simp
  qed
qed

lemma firstOf_iff: "firstOf ps line r \<longleftrightarrow> firstMatch ps line = r"
proof (cases r)
  case None
  then show ?thesis by (simp add: firstOf_def firstMatch_None_iff)
next
  case (Some ts)
  then show ?thesis using firstMatch_Some_iff [of ps line ts] by (simp add: firstOf_def)
qed

lemma patBracket_eq: "patBracket = Lit CHR ''['' # patDate @ [Lit CHR '']'']"
  by (simp add: patBracket_def patDate_def)

lemma bracket_implies_date:
  assumes "matchesAnywhere patBracket line"
  shows "matchesAnywhere patDate line"
proof -
  from assms obtain pre m post where e: "line = pre @ m @ post"
    and a: "list_all2 clsOk (Lit CHR ''['' # patDate @ [Lit CHR '']'']) m"
    by (auto simp: matchesAnywhere_def matchesWith_def patBracket_eq)
  from a obtain c m1 where m: "m = c # m1" and a1: "list_all2 clsOk (patDate @ [Lit CHR '']'']) m1"
    by (auto simp: list_all2_Cons1)
  from a1 obtain m2 m3 where m1: "m1 = m2 @ m3" and a2: "list_all2 clsOk patDate m2"
    by (auto simp: list_all2_append1)
  from e m m1 have "line = (pre @ [c]) @ m2 @ (m3 @ post)" by simp
  with a2 show ?thesis unfolding matchesAnywhere_def matchesWith_def by blast
qed

lemma extract_spec_order: "extractTimestamp line = firstMatch specOrder line"
proof -
  have "regexMatch patDate line = None \<Longrightarrow> regexMatch patBracket line = None"
    using bracket_implies_date by (auto simp: regexMatch_None_iff)
  then show ?thesis
    by (cases "regexMatch patDate line"; cases "regexMatch patSlash line";
        cases "regexMatch patTime line"; cases "regexMatch patBracket line")
       (simp_all add: extractTimestamp_def patterns_def specOrder_def)
qed

text \<open>
  Claim C8. The result of \<^const>\<open>extractTimestamp\<close> is the leftmost match of the first
  pattern that matches anywhere in the line, the patterns taken in the order date,
  slashed date, bracketed date, bare time; and no timestamp exactly when none of them
  matches. The array of the source lists the bare time before the bracketed date; the
  result is the same for every line, by \<open>bracket_implies_date\<close>.
\<close>

theorem extractTimestamp_first_in_order: "firstOf specOrder line r \<longleftrightarrow> extractTimestamp line = r"
  by (simp add: firstOf_iff extract_spec_order)

text \<open>
  Witness for C8: a bracketed timestamp is found by the date pattern.
\<close>

theorem extractTimestamp_first_in_order_witness:
  "firstOf specOrder ''[2024-01-01 10:00:00] up'' (Some ''2024-01-01 10:00:00'')"
proof -
  have h: "extractTimestamp ''[2024-01-01 10:00:00] up'' = Some ''2024-01-01 10:00:00''"
    by code_simp
  show ?thesis by (rule extractTimestamp_first_in_order [THEN iffD2, OF h])
qed

subsection \<open>Stripping the timestamp\<close>

lemma replaceFirst_leftmost:
  "s = a @ k @ b \<Longrightarrow> (\<And>a' b'. s = a' @ k @ b' \<Longrightarrow> length a \<le> length a')
     \<Longrightarrow> replaceFirst s k = a @ b"
proof (induction s arbitrary: a)
  case Nil
  then show ?case by simp
next
  case (Cons c cs)
  show ?case
  proof (cases "startsWith (c # cs) k")
    case True
    then obtain r where r: "c # cs = [] @ k @ r" using startsWith_iff by auto
    then have "length a \<le> length ([]::string)" using Cons.prems(2) by blast
    then have "a = []" by simp
    with Cons.prems(1) have "drop (length k) (c # cs) = b" by simp
    with True \<open>a = []\<close> show ?thesis by simp
  next
    case False
    then have "a \<noteq> []" using Cons.prems(1) startsWith_iff [of "c # cs" k] by auto
    then obtain a2 where a: "a = c # a2" using Cons.prems(1) by (cases a) auto
    with Cons.prems(1) have e: "cs = a2 @ k @ b" by simp
    have "length a2 \<le> length a'" if "cs = a' @ k @ b'" for a' b'
    proof -
      from that have "c # cs = (c # a') @ k @ b'" by simp
      then have "length a \<le> length (c # a')" using Cons.prems(2) by blast
      with a show ?thesis by simp
    qed
    with e have "replaceFirst cs k = a2 @ b" using Cons.IH by blast
    with False a show ?thesis by simp
  qed
qed

lemma leftmostAt_replaceFirst:
  assumes "leftmostAt p line pre ts"
  shows "\<exists>post. line = pre @ ts @ post \<and> replaceFirst line ts = pre @ post \<and>
           (\<forall>a b. line = a @ ts @ b \<longrightarrow> length pre \<le> length a)"
proof -
  from assms obtain post where e: "line = pre @ ts @ post" and m: "list_all2 clsOk p ts"
    unfolding leftmostAt_def matchesWith_def by blast
  have least: "length pre \<le> length a" if "line = a @ ts @ b" for a b
  proof -
    from that m have "matchesWith p line a ts" unfolding matchesWith_def by blast
    with assms show ?thesis unfolding leftmostAt_def by blast
  qed
  then have "replaceFirst line ts = pre @ post" using e by (rule replaceFirst_leftmost [rotated])
  with e least show ?thesis by blast
qed

lemma count_lits:
  "list_all2 clsOk p m \<Longrightarrow> length (filter (\<lambda>k. k = Lit c) p) \<le> count_list m c"
  by (induction p m rule: list_all2_induct) auto

lemma count_list_pos: "0 < count_list m c \<longleftrightarrow> c \<in> set m"
  by (induction m) auto

lemma pattern_colons:
  assumes "p \<in> set patterns" and "list_all2 clsOk p m"
  shows "CHR '':'' \<in> set m"
proof -
  from assms(1) have "0 < length (filter (\<lambda>k. k = Lit CHR '':'') p)"
    by (auto simp: patterns_def patDate_def patSlash_def patTime_def patBracket_def digits_def)
  with count_lits [OF assms(2), of "CHR '':''"] have "0 < count_list m CHR '':''"
    by linarith
  then show ?thesis by (simp add: count_list_pos)
qed

lemma pattern_two_colons:
  assumes "p \<in> set patterns" and "list_all2 clsOk p m"
  shows "2 \<le> count_list m CHR '':''"
proof -
  from assms(1) have "2 = length (filter (\<lambda>k. k = Lit CHR '':'') p)"
    by (auto simp: patterns_def patDate_def patSlash_def patTime_def patBracket_def digits_def)
  with count_lits [OF assms(2), of "CHR '':''"] show ?thesis by simp
qed

lemma set_trim: "set (trim s) \<subseteq> set s"
proof -
  have "x \<in> set s" if "x \<in> set (trim s)" for x
  proof -
    from that have "x \<in> set (dropWhile isWhiteSpace (rev (dropWhile isWhiteSpace s)))"
      by (simp add: trim_def)
    then have "x \<in> set (rev (dropWhile isWhiteSpace s))" by (rule set_dropWhileD)
    then have "x \<in> set (dropWhile isWhiteSpace s)" by simp
    then show ?thesis by (rule set_dropWhileD)
  qed
  then show ?thesis by blast
qed

lemma count_list_append': "count_list (xs @ ys) c = count_list xs c + count_list ys c"
  by (induction xs) auto

lemma extract_cases:
  assumes "extractTimestamp line = Some ts"
  shows "\<exists>p \<in> set patterns. regexMatch p line = Some ts"
  using assms
  by (cases "regexMatch patDate line"; cases "regexMatch patSlash line";
      cases "regexMatch patTime line"; cases "regexMatch patBracket line")
     (simp_all add: extractTimestamp_def patterns_def)

lemma pattern_nonempty:
  assumes "p \<in> set patterns" and "list_all2 clsOk p m"
  shows "m \<noteq> []"
  using pattern_colons [OF assms] by auto

lemma bracket_char:
  "\<not> isDigit CHR ''[''" "\<not> isWhiteSpace CHR ''[''" "\<not> isWhiteSpace CHR '']''"
  by (simp_all add: isDigit_def isWhiteSpace_def)

lemma trim_decomp: "\<exists>u w. x = u @ trim x @ w"
proof -
  let ?y = "dropWhile isWhiteSpace x"
  have 1: "x = takeWhile isWhiteSpace x @ ?y" by simp
  have "rev (rev (dropWhile isWhiteSpace (rev ?y)) @ rev (takeWhile isWhiteSpace (rev ?y))) =
      takeWhile isWhiteSpace (rev ?y) @ dropWhile isWhiteSpace (rev ?y)" by simp
  also have "\<dots> = rev ?y" by (rule takeWhile_dropWhile_id)
  finally have "rev (dropWhile isWhiteSpace (rev ?y)) @ rev (takeWhile isWhiteSpace (rev ?y)) = ?y"
    by (simp only: rev_is_rev_conv)
  then have 2: "?y = trim x @ rev (takeWhile isWhiteSpace (rev ?y))"
    by (simp only: trim_def)
  from 1 2 have "x = takeWhile isWhiteSpace x @ trim x @ rev (takeWhile isWhiteSpace (rev ?y))"
    by simp
  then show ?thesis by blast
qed

lemma trim_around:
  assumes "m \<noteq> []" and "\<not> isWhiteSpace (hd m)" and "\<not> isWhiteSpace (last m)"
  shows "trim (u @ m @ w) =
           dropWhile isWhiteSpace u @ m @ rev (dropWhile isWhiteSpace (rev w))"
proof -
  from assms(1) obtain c r where m: "m = c # r" by (cases m) auto
  with assms(2) have c: "\<not> isWhiteSpace c" by simp
  have 1: "dropWhile isWhiteSpace (u @ m @ w) = dropWhile isWhiteSpace u @ m @ w"
    using c by (simp add: m dropWhile_append3)
  from assms(1) have "m = butlast m @ [last m]" by simp
  then have "rev m = last m # rev (butlast m)" by (metis rev.simps(2) rev_rev_ident rev_singleton_conv rev_append append_Cons append_Nil)
  then have 2: "rev (dropWhile isWhiteSpace u @ m @ w) =
      rev w @ last m # (rev (butlast m) @ rev (dropWhile isWhiteSpace u))" by simp
  have 3: "dropWhile isWhiteSpace (rev w @ last m # (rev (butlast m) @ rev (dropWhile isWhiteSpace u)))
      = dropWhile isWhiteSpace (rev w) @ last m # (rev (butlast m) @ rev (dropWhile isWhiteSpace u))"
    using assms(3) by (rule dropWhile_append3)
  have "trim (u @ m @ w) = rev (dropWhile isWhiteSpace (rev w) @ last m # (rev (butlast m) @ rev (dropWhile isWhiteSpace u)))"
    unfolding trim_def 1 2 3 ..
  also have "\<dots> = dropWhile isWhiteSpace u @ (butlast m @ [last m]) @ rev (dropWhile isWhiteSpace (rev w))"
    by simp
  finally show ?thesis using assms(1) by simp
qed

lemma list_all2_ends:
  assumes "list_all2 R p m" and "p \<noteq> []"
  shows "m \<noteq> [] \<and> R (hd p) (hd m) \<and> R (last p) (last m)"
proof -
  from assms have l: "length m = length p" and n: "m \<noteq> []"
    by (auto simp: list_all2_lengthD)
  from assms(1) have a: "\<forall>i < length p. R (p ! i) (m ! i)" by (simp add: list_all2_conv_all_nth)
  from a assms(2) have "R (p ! 0) (m ! 0)" by simp
  then have h: "R (hd p) (hd m)" using assms(2) n by (simp add: hd_conv_nth)
  from a assms(2) have "R (p ! (length p - 1)) (m ! (length p - 1))" by simp
  then have "R (last p) (last m)" using assms(2) n l by (simp add: last_conv_nth)
  with n h show ?thesis by simp
qed

lemma digit_not_space: "isDigit c \<Longrightarrow> \<not> isWhiteSpace c"
  by (auto simp: isDigit_def isWhiteSpace_def)

lemma pattern_ends:
  assumes "p \<in> set patterns" and "list_all2 clsOk p m"
  shows "m \<noteq> [] \<and> \<not> isWhiteSpace (hd m) \<and> \<not> isWhiteSpace (last m)"
proof -
  have e: "hd patDate = Digit" "last patDate = Digit" "hd patSlash = Digit"
    "last patSlash = Digit" "hd patTime = Digit" "last patTime = Digit"
    "hd patBracket = Lit CHR ''[''" "last patBracket = Lit CHR '']''"
    by code_simp+
  have ne: "p \<noteq> []" using assms(1)
    by (auto simp: patterns_def patDate_def patSlash_def patTime_def patBracket_def)
  from list_all2_ends [OF assms(2) ne]
  have m: "m \<noteq> []" and h: "clsOk (hd p) (hd m)" and l: "clsOk (last p) (last m)" by simp_all
  from assms(1) have "p = patDate \<or> p = patSlash \<or> p = patTime \<or> p = patBracket"
    by (simp add: patterns_def)
  then have "\<not> isWhiteSpace (hd m) \<and> \<not> isWhiteSpace (last m)"
    using h l e by (auto simp: digit_not_space bracket_char)
  with m show ?thesis by simp
qed

lemma matchesAnywhere_trim:
  assumes "q \<in> set patterns"
  shows "matchesAnywhere q (trim x) \<longleftrightarrow> matchesAnywhere q x"
proof
  assume "matchesAnywhere q (trim x)"
  then obtain a m b where t: "trim x = a @ m @ b" and m: "list_all2 clsOk q m"
    unfolding matchesAnywhere_def matchesWith_def by blast
  from trim_decomp obtain u w where "x = u @ trim x @ w" by blast
  with t have "x = (u @ a) @ m @ (b @ w)" by simp
  with m show "matchesAnywhere q x" unfolding matchesAnywhere_def matchesWith_def by blast
next
  assume "matchesAnywhere q x"
  then obtain a m b where x: "x = a @ m @ b" and m: "list_all2 clsOk q m"
    unfolding matchesAnywhere_def matchesWith_def by blast
  from pattern_ends [OF assms m]
  have "trim (a @ m @ b) = dropWhile isWhiteSpace a @ m @ rev (dropWhile isWhiteSpace (rev b))"
    using trim_around by blast
  with x m show "matchesAnywhere q (trim x)"
    unfolding matchesAnywhere_def matchesWith_def by blast
qed

lemma match_two_colons:
  assumes "q \<in> set patterns" and "matchesAnywhere q x"
  shows "2 \<le> count_list x CHR '':''"
proof -
  from assms(2) obtain a m b where x: "x = a @ m @ b" and m: "list_all2 clsOk q m"
    unfolding matchesAnywhere_def matchesWith_def by blast
  from pattern_two_colons [OF assms(1) m] x show ?thesis by (simp add: count_list_append')
qed

text \<open>
  Claim C3, amended. When \<^const>\<open>extractTimestamp\<close> returns a timestamp, it is the
  leftmost match of one of the patterns; the line is cut at that place, which is the
  first occurrence of the text, and the body is what remains before and after it,
  trimmed. A pattern matches the body exactly when it matches that remaining text: it
  does when a match of it lies before or after the cut, and none of the four patterns
  does when the line holds at most three colons.
\<close>

theorem stripTimestamp_first_occurrence:
  assumes "extractTimestamp line = Some ts"
  shows "\<exists>p pre post.
           p \<in> set patterns \<and> leftmostAt p line pre ts \<and> line = pre @ ts @ post \<and>
           (\<forall>a b. line = a @ ts @ b \<longrightarrow> length pre \<le> length a) \<and>
           stripTimestamp line = trim (pre @ post) \<and>
           (\<forall>q \<in> set patterns.
              (regexMatch q (stripTimestamp line) = None) = (\<not> matchesAnywhere q (pre @ post))) \<and>
           (\<forall>q \<in> set patterns.
              matchesAnywhere q pre \<or> matchesAnywhere q post \<longrightarrow>
                regexMatch q (stripTimestamp line) \<noteq> None) \<and>
           (count_list line CHR '':'' \<le> 3 \<longrightarrow>
              (\<forall>q \<in> set patterns. regexMatch q (stripTimestamp line) = None))"
proof -
  from assms obtain p where p: "p \<in> set patterns" and r: "regexMatch p line = Some ts"
    using extract_cases by blast
  from r obtain pre where l: "leftmostAt p line pre ts"
    using regexMatch_Some_leftmost by blast
  then have m: "list_all2 clsOk p ts" unfolding leftmostAt_def matchesWith_def by blast
  from l obtain post where e: "line = pre @ ts @ post"
    and rf: "replaceFirst line ts = pre @ post"
    and least: "\<forall>a b. line = a @ ts @ b \<longrightarrow> length pre \<le> length a"
    using leftmostAt_replaceFirst by blast
  have ne: "ts \<noteq> []" using pattern_nonempty [OF p m] .
  have st: "stripTimestamp line = trim (pre @ post)"
    using assms ne rf by (simp add: stripTimestamp_def)
  have iff: "(regexMatch q (stripTimestamp line) = None) = (\<not> matchesAnywhere q (pre @ post))"
    if q: "q \<in> set patterns" for q
    unfolding st regexMatch_None_iff using matchesAnywhere_trim [OF q] by simp
  have side: "regexMatch q (stripTimestamp line) \<noteq> None"
    if q: "q \<in> set patterns" and s: "matchesAnywhere q pre \<or> matchesAnywhere q post" for q
  proof -
    from s have "matchesAnywhere q (pre @ post)"
    proof
      assume "matchesAnywhere q pre"
      then obtain a x b where "pre = a @ x @ b" and "list_all2 clsOk q x"
        unfolding matchesAnywhere_def matchesWith_def by blast
      then have "pre @ post = a @ x @ (b @ post) \<and> list_all2 clsOk q x" by simp
      then show ?thesis unfolding matchesAnywhere_def matchesWith_def by blast
    next
      assume "matchesAnywhere q post"
      then obtain a x b where "post = a @ x @ b" and "list_all2 clsOk q x"
        unfolding matchesAnywhere_def matchesWith_def by blast
      then have "pre @ post = (pre @ a) @ x @ b \<and> list_all2 clsOk q x" by simp
      then show ?thesis unfolding matchesAnywhere_def matchesWith_def by blast
    qed
    with iff [OF q] show ?thesis by simp
  qed
  have few: "regexMatch q (stripTimestamp line) = None"
    if c: "count_list line CHR '':'' \<le> 3" and q: "q \<in> set patterns" for q
  proof -
    have "2 \<le> count_list ts CHR '':''" using pattern_two_colons [OF p m] .
    with c e have "count_list (pre @ post) CHR '':'' \<le> 1" by (simp add: count_list_append')
    then have "\<not> matchesAnywhere q (pre @ post)" using match_two_colons [OF q] by fastforce
    with iff [OF q] show ?thesis by simp
  qed
  from p l e least st iff side few show ?thesis by blast
qed

text \<open>
  Witness for C3, amended: a line with three colons, whose body no pattern matches, and
  a line with two times of day, whose body keeps the second one.
\<close>

theorem stripTimestamp_first_occurrence_witness:
  "extractTimestamp ''2024-01-01 10:00:00 ERROR: x'' = Some ''2024-01-01 10:00:00'' \<and>
   count_list ''2024-01-01 10:00:00 ERROR: x'' CHR '':'' \<le> 3 \<and>
   regexMatch patDate (stripTimestamp ''2024-01-01 10:00:00 ERROR: x'') = None \<and>
   regexMatch patSlash (stripTimestamp ''2024-01-01 10:00:00 ERROR: x'') = None \<and>
   regexMatch patTime (stripTimestamp ''2024-01-01 10:00:00 ERROR: x'') = None \<and>
   regexMatch patBracket (stripTimestamp ''2024-01-01 10:00:00 ERROR: x'') = None \<and>
   extractTimestamp ''10:00:00 11:11:11'' = Some ''10:00:00'' \<and>
   matchesAnywhere patTime '' 11:11:11'' \<and>
   regexMatch patTime (stripTimestamp ''10:00:00 11:11:11'') \<noteq> None"
proof -
  let ?l1 = "''2024-01-01 10:00:00 ERROR: x''"
  let ?l2 = "''10:00:00 11:11:11''"
  have h1: "extractTimestamp ?l1 = Some ''2024-01-01 10:00:00''" by code_simp
  have c1: "count_list ?l1 CHR '':'' \<le> 3" by code_simp
  from stripTimestamp_first_occurrence [OF h1]
  obtain p pre post where
    "count_list ?l1 CHR '':'' \<le> 3 \<longrightarrow>
       (\<forall>q \<in> set patterns. regexMatch q (stripTimestamp ?l1) = None)"
    by blast
  from this c1 have "\<forall>q \<in> set patterns. regexMatch q (stripTimestamp ?l1) = None" by (rule mp)
  then have n1: "regexMatch patDate (stripTimestamp ?l1) = None"
    "regexMatch patSlash (stripTimestamp ?l1) = None"
    "regexMatch patTime (stripTimestamp ?l1) = None"
    "regexMatch patBracket (stripTimestamp ?l1) = None"
    by (simp_all add: patterns_def)
  have h2: "extractTimestamp ?l2 = Some ''10:00:00''" by code_simp
  have "regexMatch patTime '' 11:11:11'' \<noteq> None" by code_simp
  then have m2: "matchesAnywhere patTime '' 11:11:11''"
    using regexMatch_None_iff [of patTime "'' 11:11:11''"] by (simp only: not_not)
  have t: "patTime \<in> set patterns" by (simp add: patterns_def)
  from stripTimestamp_first_occurrence [OF h2]
  obtain p2 pre2 post2 where e2: "?l2 = pre2 @ ''10:00:00'' @ post2"
    and least2: "\<forall>a b. ?l2 = a @ ''10:00:00'' @ b \<longrightarrow> length pre2 \<le> length a"
    and side2: "\<forall>q \<in> set patterns. matchesAnywhere q pre2 \<or> matchesAnywhere q post2 \<longrightarrow>
                regexMatch q (stripTimestamp ?l2) \<noteq> None"
    by blast
  have "?l2 = [] @ ''10:00:00'' @ '' 11:11:11''" by (simp only: append.simps)
  with least2 have "length pre2 \<le> length ([]::string)" by blast
  then have "pre2 = []" by simp
  with e2 have "''10:00:00'' @ '' 11:11:11'' = ''10:00:00'' @ post2" by (simp only: append.simps)
  then have "post2 = '' 11:11:11''" by (simp only: same_append_eq)
  with m2 have "matchesAnywhere patTime pre2 \<or> matchesAnywhere patTime post2" by (simp only: simp_thms)
  with side2 t have r2: "regexMatch patTime (stripTimestamp ?l2) \<noteq> None" by blast
  from h1 c1 n1 h2 m2 r2 show ?thesis by (intro conjI)
qed

text \<open>
  Counterexample to C3 as stated: in a line with two times of day, the bare time
  pattern gives the first one, and matches the second one in the body.
\<close>

theorem stripTimestamp_rematch_counterexample:
  "extractTimestamp ''10:00:00 11:11:11'' = Some ''10:00:00'' \<and>
   regexMatch patTime ''10:00:00 11:11:11'' = Some ''10:00:00'' \<and>
   stripTimestamp ''10:00:00 11:11:11'' = ''11:11:11'' \<and>
   regexMatch patTime (stripTimestamp ''10:00:00 11:11:11'') = Some ''11:11:11''"
  by code_simp

subsection \<open>The bracketed pattern\<close>

lemma list_all2_cls:
  "list_all2 clsOk p m \<Longrightarrow> c \<in> set m \<Longrightarrow> \<exists>k \<in> set p. clsOk k c"
  by (induction p m rule: list_all2_induct) auto

lemma no_open_bracket:
  assumes "p \<in> {patDate, patSlash, patTime}" and "list_all2 clsOk p m"
  shows "CHR ''['' \<notin> set m"
proof
  assume "CHR ''['' \<in> set m"
  then obtain k where "k \<in> set p" and "clsOk k CHR ''[''"
    using list_all2_cls [OF assms(2)] by blast
  with assms(1) show False
    by (auto simp: patDate_def patSlash_def patTime_def digits_def bracket_char)
qed

lemma no_straddle:
  assumes e: "pre' @ m' @ post' = pre @ c # rest"
    and l: "length pre' \<le> length pre" and c: "c \<notin> set m'"
  shows "\<exists>x. pre = pre' @ m' @ x"
proof -
  from e l obtain us where us: "pre = pre' @ us" and r: "m' @ post' = us @ c # rest"
    by (auto simp: append_eq_append_conv2 [of pre' "m' @ post'" pre "c # rest"])
  from r consider vs where "m' = us @ vs" "vs @ post' = c # rest"
    | vs where "us = m' @ vs" "post' = vs @ c # rest"
    by (auto simp: append_eq_append_conv2 [of m' post' us "c # rest"])
  then show ?thesis
  proof cases
    case 1
    show ?thesis
    proof (cases vs)
      case Nil
      with 1 us show ?thesis by simp
    next
      case (Cons v vs')
      with 1 have "c \<in> set m'" by simp
      with c show ?thesis by simp
    qed
  next
    case 2
    with us show ?thesis by simp
  qed
qed

lemma bracket_leftmost:
  assumes ts: "list_all2 clsOk patDate ts" and pre: "\<not> matchesAnywhere patDate pre"
    and line: "line = pre @ ''['' @ ts @ '']'' @ post"
  shows "leftmostAt patDate line (pre @ ''['') ts"
  unfolding leftmostAt_def
proof (intro conjI allI impI)
  have "line = (pre @ ''['') @ ts @ ('']'' @ post)" using line by simp
  with ts show "matchesWith patDate line (pre @ ''['') ts"
    unfolding matchesWith_def by blast
next
  fix pre' m'
  assume "matchesWith patDate line pre' m'"
  then obtain post' where e0: "line = pre' @ m' @ post'"
    and m': "list_all2 clsOk patDate m'"
    unfolding matchesWith_def by blast
  have "line = pre @ CHR ''['' # (ts @ '']'' @ post)" using line by simp
  with e0 have e: "pre' @ m' @ post' = pre @ CHR ''['' # (ts @ '']'' @ post)"
    by (rule subst)
  show "length (pre @ ''['') \<le> length pre'"
  proof (rule ccontr)
    assume "\<not> length (pre @ ''['') \<le> length pre'"
    then have l: "length pre' \<le> length pre" by simp
    have "patDate \<in> {patDate, patSlash, patTime}" by simp
    then have "CHR ''['' \<notin> set m'" using m' by (rule no_open_bracket)
    with e l have "\<exists>x. pre = pre' @ m' @ x" by (rule no_straddle)
    then obtain x where "pre = pre' @ m' @ x" ..
    with m' have "matchesWith patDate pre pre' m'"
      unfolding matchesWith_def by blast
    then have "matchesAnywhere patDate pre"
      unfolding matchesAnywhere_def by blast
    with pre show False by simp
  qed
qed

lemma trim_brackets:
  "trim (pre @ ''[]'' @ post) =
     dropWhile isWhiteSpace pre @ ''[]'' @ rev (dropWhile isWhiteSpace (rev post))"
  by (simp add: trim_def dropWhile_append3 bracket_char)

lemma extract_not_bracket:
  assumes "extractTimestamp line = Some ts"
  shows "\<exists>p \<in> {patDate, patSlash, patTime}. leftmostMatch p line ts"
proof -
  have b: "regexMatch patDate line = None \<Longrightarrow> regexMatch patBracket line = None"
    using bracket_implies_date by (auto simp: regexMatch_None_iff)
  have "regexMatch patDate line = Some ts \<or> regexMatch patSlash line = Some ts
          \<or> regexMatch patTime line = Some ts"
    using assms b
    by (cases "regexMatch patDate line"; cases "regexMatch patSlash line";
        cases "regexMatch patTime line")
       (simp_all add: extractTimestamp_def patterns_def)
  then show ?thesis by (auto simp: regexMatch_Some_iff)
qed

text \<open>
  Claim C10. Where the bracketed pattern matches, the date pattern matches too; so a
  result of \<^const>\<open>extractTimestamp\<close> never matches the bracketed pattern and holds no
  opening bracket. For a line with a timestamp in brackets and no date before it, the
  timestamp is returned without the brackets and the body keeps \<open>[]\<close>.
\<close>

theorem bracket_pattern_unreachable:
  "(matchesAnywhere patBracket line \<longrightarrow> matchesAnywhere patDate line) \<and>
   (\<forall>ts. extractTimestamp line = Some ts \<longrightarrow>
      \<not> list_all2 clsOk patBracket ts \<and> CHR ''['' \<notin> set ts) \<and>
   (\<forall>pre ts post.
      line = pre @ ''['' @ ts @ '']'' @ post \<and> list_all2 clsOk patDate ts \<and>
      \<not> matchesAnywhere patDate pre \<longrightarrow>
        extractTimestamp line = Some ts \<and>
        stripTimestamp line =
          dropWhile isWhiteSpace pre @ ''[]'' @ rev (dropWhile isWhiteSpace (rev post)) \<and>
        formatLogContent line =
          escapeHtml (dropWhile isWhiteSpace pre @ ''[]'' @
                      rev (dropWhile isWhiteSpace (rev post))))"
proof (intro conjI allI impI)
  assume "matchesAnywhere patBracket line"
  then show "matchesAnywhere patDate line" by (rule bracket_implies_date)
next
  fix ts
  assume "extractTimestamp line = Some ts"
  then obtain p where p: "p \<in> {patDate, patSlash, patTime}" and "leftmostMatch p line ts"
    using extract_not_bracket by blast
  then have "list_all2 clsOk p ts"
    by (auto simp: leftmostMatch_def leftmostAt_def matchesWith_def)
  with p show "CHR ''['' \<notin> set ts" by (rule no_open_bracket)
  then show "\<not> list_all2 clsOk patBracket ts"
    by (auto simp: patBracket_eq list_all2_Cons1)
next
  fix pre ts post
  assume a: "line = pre @ ''['' @ ts @ '']'' @ post \<and> list_all2 clsOk patDate ts \<and>
      \<not> matchesAnywhere patDate pre"
  then have l: "leftmostAt patDate line (pre @ ''['') ts"
    using bracket_leftmost [of ts pre line post] by blast
  then have "regexMatch patDate line = Some ts"
    by (auto simp: regexMatch_Some_iff leftmostMatch_def)
  then show ex: "extractTimestamp line = Some ts"
    by (simp add: extractTimestamp_def patterns_def)
  from a have "patDate \<in> set patterns" and "list_all2 clsOk patDate ts"
    by (simp_all add: patterns_def)
  then have ne: "ts \<noteq> []" by (rule pattern_nonempty)
  from l obtain post0 where "line = (pre @ ''['') @ ts @ post0"
    and "replaceFirst line ts = (pre @ ''['') @ post0"
    using leftmostAt_replaceFirst by blast
  with a have "replaceFirst line ts = pre @ ''[]'' @ post" by simp
  with ex ne have "stripTimestamp line = trim (pre @ ''[]'' @ post)"
    by (simp add: stripTimestamp_def)
  then show st: "stripTimestamp line =
      dropWhile isWhiteSpace pre @ ''[]'' @ rev (dropWhile isWhiteSpace (rev post))"
    by (simp only: trim_brackets)
  then show "formatLogContent line =
      escapeHtml (dropWhile isWhiteSpace pre @ ''[]'' @
                  rev (dropWhile isWhiteSpace (rev post)))"
    by (simp add: formatLogContent_def)
qed

text \<open>
  Witness for C10: a bracketed timestamp inside a line.
\<close>

theorem bracket_pattern_unreachable_witness:
  "matchesAnywhere patBracket ''job [2024-01-01 10:00:00] done'' \<and>
   matchesAnywhere patDate ''job [2024-01-01 10:00:00] done'' \<and>
   extractTimestamp ''job [2024-01-01 10:00:00] done'' = Some ''2024-01-01 10:00:00'' \<and>
   formatLogContent ''job [2024-01-01 10:00:00] done'' = ''job [] done''"
proof -
  let ?line = "''job [2024-01-01 10:00:00] done''"
  have "regexMatch patBracket ?line \<noteq> None" by code_simp
  then have b: "matchesAnywhere patBracket ?line"
    using regexMatch_None_iff [of patBracket ?line] by (simp only: not_not)
  have d: "list_all2 clsOk patDate ''2024-01-01 10:00:00''" by code_simp
  have "regexMatch patDate ''job '' = None" by code_simp
  then have n: "\<not> matchesAnywhere patDate ''job ''"
    by (rule iffD1 [OF regexMatch_None_iff])
  have e: "?line = ''job '' @ ''['' @ ''2024-01-01 10:00:00'' @ '']'' @ '' done''"
    by (simp only: append.simps)
  have f: "escapeHtml (dropWhile isWhiteSpace ''job '' @ ''[]'' @
             rev (dropWhile isWhiteSpace (rev '' done''))) = ''job [] done''"
    by code_simp
  note t = bracket_pattern_unreachable [of ?line]
  from t b have 1: "matchesAnywhere patDate ?line"
    by (rule conjunct1 [THEN mp])
  note t3 = t [THEN conjunct2, THEN conjunct2, rule_format,
    of "''job ''" "''2024-01-01 10:00:00''" "'' done''", OF conjI [OF e conjI [OF d n]]]
  from t3 have 2: "extractTimestamp ?line = Some ''2024-01-01 10:00:00''"
    by (rule conjunct1)
  from t3 have "formatLogContent ?line = escapeHtml (dropWhile isWhiteSpace ''job '' @ ''[]'' @
             rev (dropWhile isWhiteSpace (rev '' done'')))"
    by (rule conjunct2 [THEN conjunct2])
  then have 3: "formatLogContent ?line = ''job [] done''" by (simp only: f)
  from b 1 2 3 show ?thesis by (intro conjI)
qed

section \<open>Properties of the dashboard\<close>

subsection \<open>The bot trigger\<close>

lemma startBot_running_noop:
  "isBotRunning s \<Longrightarrow> startBot v s = (Returned, s)"
  by (cases v) (simp_all add: startBot_def startBotNetworked_def startBotSimulated_def)


lemma startBotResume_cases:
  "startBotResume outcome s = (Returned, leaveRunning (snd (startBotTry outcome s))) \<or>
   (\<exists>e. startBotTry outcome s = (Threw e, s) \<and>
        startBotResume outcome s = (Returned, leaveRunning (startBotCatch e s)))"
  by (auto simp: startBotResume_def startBotTry_def Let_def
           split: botOutcome.splits parsed.splits completion.splits prod.splits)




lemma startBot_http_error:
  assumes "\<not> responseOk status" and "result \<noteq> JNull"
  shows "startBotResume (BotResponse status (Parsed result)) s =
           (Returned,
            leaveRunning (startBotCatch
              (Exn ''Error'' (orDefault (getProp result ''error'') ''Failed to start bot'')) s))"
  using assms by (simp add: startBotResume_def startBotTry_def Let_def)





subsection \<open>The timer invariant\<close>

lemma timerView_frame [simp]:
  "timerView (setStatus a b s) = timerView s"
  "timerView (showError a s) = timerView s"
  "timerView (hideError s) = timerView s"
  "timerView (addLogEntry a b s) = timerView s"
  "timerView (clearLogs s) = timerView s"
  "timerView (displayLogs a s) = timerView s"
  "timerView (updateStats v a s) = timerView s"
  "timerView (enterRunning s) = timerView s"
  "timerView (leaveRunning s) = timerView s"
  "timerView (removeToast k s) = timerView s"
  "timerView (loadLogs v s) = timerView s"
  "timerView (loadLogsCatch v e s) = timerView s"
  "timerView (loadLogsFinally s) = timerView s"
  "timerView (startBotNetworked s) = timerView s"
  by (simp_all add: timerView_def setStatus_def showError_def hideError_def addLogEntry_def
        clearLogs_def displayLogs_def updateStats_def enterRunning_def leaveRunning_def
        removeToast_def loadLogs_def loadLogsCatch_def loadLogsFinally_def
        startBotNetworked_def Let_def split: variant.splits)

lemma timerView_fields [simp]:
  "timerView (s\<lparr>logContent := a1\<rparr>) = timerView s"
  "timerView (s\<lparr>console := a2\<rparr>) = timerView s"
  "timerView (s\<lparr>uncaught := a3\<rparr>) = timerView s"
  "timerView (s\<lparr>clock := a4\<rparr>) = timerView s"
  "timerView (s\<lparr>pendingLogs := a5\<rparr>) = timerView s"
  "timerView (s\<lparr>pendingBots := a6\<rparr>) = timerView s"
  "timerView (s\<lparr>scheduleEnabledChecked := a7\<rparr>) = timerView s"
  "timerView (s\<lparr>scheduleIntervalValue := a8\<rparr>) = timerView s"
  "timerView (s\<lparr>scheduleUnitValue := a9\<rparr>) = timerView s"
  "timerView (s\<lparr>autoRefreshChecked := b1\<rparr>) = timerView s"
  "timerView (s\<lparr>scheduleBtn := b2\<rparr>) = timerView s"
  "timerView (s\<lparr>toasts := b3\<rparr>) = timerView s"
  by (simp_all add: timerView_def)

lemma timerView_loadLogsResume [simp]:
  "timerView (snd (loadLogsResume v outcome s)) = timerView s"
  by (simp add: loadLogsResume_def loadLogsTry_def Let_def
        split: logsOutcome.splits body.splits variant.splits)

lemma schedInv_addTimer:
  assumes "schedInv s" and "cb \<noteq> ScheduleTick"
  shows "schedInv (snd (setTimer cb d r s))"
  using assms by (auto simp: schedInv_def timersOk_def timerView_def setTimer_def)

lemma schedInv_showToast: "schedInv s \<Longrightarrow> schedInv (showToast m ty s)"
proof -
  assume a: "schedInv s"
  have "schedInv (s\<lparr>toasts := toasts s @ [\<lparr>toastId = nextTimerId s,
      toastClass = ''toast toast-'' @ ty, toastText = m, toastFading = False\<rparr>]\<rparr>)"
    using a by (simp add: schedInv_def)
  then show ?thesis
    unfolding showToast_def Let_def
    using schedInv_addTimer [of _ "ToastFade (nextTimerId s)" 5000 False] by simp
qed

lemma clearScheduledTask_clears:
  assumes "schedInv s"
  shows "schedInv (clearScheduledTask s) \<and> scheduleTimers (clearScheduledTask s) = [] \<and>
         scheduledTask (clearScheduledTask s) = None"
proof (cases "scheduledTask s")
  case None
  with assms show ?thesis
    by (simp add: clearScheduledTask_def schedInv_def timersOk_def timerView_def
          scheduleTimers_def)
next
  case (Some h)
  with assms have ids: "map timerId (scheduleTimers s) = [h]"
    by (simp add: schedInv_def timersOk_def timerView_def scheduleTimers_def)
  then obtain t where t: "scheduleTimers s = [t]" and h: "timerId t = h" by auto
  then have "t \<in> set (scheduleTimers s)" by simp
  then have "t \<in> set (timers s)" by (simp add: scheduleTimers_def)
  with assms h have pos: "h \<noteq> 0" by (auto simp: schedInv_def timersOk_def timerView_def)
  have gone: "filter (\<lambda>t. timerCallback t = ScheduleTick) (filter (\<lambda>t. timerId t \<noteq> h) (timers s)) = []"
  proof -
    have "filter (\<lambda>t. timerCallback t = ScheduleTick) (filter (\<lambda>t. timerId t \<noteq> h) (timers s))
        = filter (\<lambda>t. timerId t \<noteq> h) (scheduleTimers s)"
      by (simp add: scheduleTimers_def conj_commute)
    with t h show ?thesis by simp
  qed
  have c: "clearScheduledTask s = (clearInterval h s)\<lparr>scheduledTask := None\<rparr>"
    using Some pos by (simp add: clearScheduledTask_def)
  show ?thesis
    unfolding c using assms gone
    by (auto simp: schedInv_def timersOk_def timerView_def clearInterval_def scheduleTimers_def
          distinct_map_filter)
qed

lemma schedInv_frame [simp]:
  "schedInv (setStatus a b s) = schedInv s"
  "schedInv (showError a s) = schedInv s"
  "schedInv (hideError s) = schedInv s"
  "schedInv (addLogEntry a b s) = schedInv s"
  "schedInv (clearLogs s) = schedInv s"
  "schedInv (displayLogs a s) = schedInv s"
  "schedInv (updateStats v a s) = schedInv s"
  "schedInv (enterRunning s) = schedInv s"
  "schedInv (leaveRunning s) = schedInv s"
  "schedInv (removeToast k s) = schedInv s"
  "schedInv (loadLogs v s) = schedInv s"
  "schedInv (loadLogsCatch v e s) = schedInv s"
  "schedInv (loadLogsFinally s) = schedInv s"
  "schedInv (startBotNetworked s) = schedInv s"
  "schedInv (snd (loadLogsResume v outcome s)) = schedInv s"
  by (simp_all add: schedInv_def)

lemma schedInv_fields [simp]:
  "schedInv (s\<lparr>logContent := a1\<rparr>) = schedInv s"
  "schedInv (s\<lparr>console := a2\<rparr>) = schedInv s"
  "schedInv (s\<lparr>uncaught := a3\<rparr>) = schedInv s"
  "schedInv (s\<lparr>clock := a4\<rparr>) = schedInv s"
  "schedInv (s\<lparr>pendingLogs := a5\<rparr>) = schedInv s"
  "schedInv (s\<lparr>pendingBots := a6\<rparr>) = schedInv s"
  "schedInv (s\<lparr>scheduleEnabledChecked := a7\<rparr>) = schedInv s"
  "schedInv (s\<lparr>scheduleIntervalValue := a8\<rparr>) = schedInv s"
  "schedInv (s\<lparr>scheduleUnitValue := a9\<rparr>) = schedInv s"
  "schedInv (s\<lparr>autoRefreshChecked := b1\<rparr>) = schedInv s"
  "schedInv (s\<lparr>scheduleBtn := b2\<rparr>) = schedInv s"
  "schedInv (s\<lparr>toasts := b3\<rparr>) = schedInv s"
  by (simp_all add: schedInv_def)

lemma schedInv_newSchedule:
  assumes "schedInv s" and "scheduledTask s = None"
  shows "schedInv ((snd (setTimer ScheduleTick d True s))\<lparr>scheduledTask := Some (nextTimerId s)\<rparr>)"
  using assms by (auto simp: schedInv_def timersOk_def timerView_def setTimer_def)

lemma schedInv_stopAutoRefresh: "schedInv s \<Longrightarrow> schedInv (stopAutoRefresh s)"
proof -
  assume a: "schedInv s"
  show ?thesis
  proof (cases "autoRefreshInterval s")
    case None
    with a show ?thesis by (simp add: stopAutoRefresh_def)
  next
    case (Some h)
    with a have "h \<notin> timerId ` {t \<in> set (timers s). timerCallback t = ScheduleTick}"
      by (simp add: schedInv_def timersOk_def timerView_def)
    then have "filter (\<lambda>t. timerCallback t = ScheduleTick) (filter (\<lambda>t. timerId t \<noteq> h) (timers s))
        = filter (\<lambda>t. timerCallback t = ScheduleTick) (timers s)"
      by (auto intro: filter_cong)
    with a Some show ?thesis
      by (auto simp: stopAutoRefresh_def schedInv_def timersOk_def timerView_def
            clearInterval_def distinct_map_filter)
  qed
qed

lemma schedInv_startAutoRefresh: "schedInv s \<Longrightarrow> schedInv (startAutoRefresh v s)"
proof -
  assume "schedInv s"
  then have "schedInv (stopAutoRefresh s)" by (rule schedInv_stopAutoRefresh)
  then have "schedInv ((snd (setTimer AutoRefreshTick 5000 True (stopAutoRefresh s)))
      \<lparr>autoRefreshInterval := Some (nextTimerId (stopAutoRefresh s))\<rparr>)"
    by (auto simp: schedInv_def timersOk_def timerView_def setTimer_def)
  then show ?thesis
    by (simp add: startAutoRefresh_def setTimer_def schedInv_def)
qed

lemma schedInv_fired:
  assumes "schedInv s" and "t \<in> set (timers s)"
  shows "schedInv (if timerRepeats t then s else clearInterval (timerId t) s)"
proof (cases "timerRepeats t")
  case True
  with assms show ?thesis by simp
next
  case False
  with assms have n: "timerCallback t \<noteq> ScheduleTick"
    by (auto simp: schedInv_def timersOk_def timerView_def)
  from assms have d: "distinct (map timerId (timers s))"
    by (simp add: schedInv_def timersOk_def timerView_def)
  have "filter (\<lambda>x. timerCallback x = ScheduleTick) (filter (\<lambda>x. timerId x \<noteq> timerId t) (timers s))
      = filter (\<lambda>x. timerCallback x = ScheduleTick) (timers s)"
  proof -
    have "timerId x \<noteq> timerId t" if "x \<in> set (timers s)" "timerCallback x = ScheduleTick" for x
    proof
      assume "timerId x = timerId t"
      with d that(1) assms(2) have "x = t" by (meson distinct_map inj_onD)
      with that(2) n show False by simp
    qed
    then show ?thesis by (auto intro: filter_cong)
  qed
  with assms(1) False show ?thesis
    by (auto simp: schedInv_def timersOk_def timerView_def clearInterval_def
          distinct_map_filter)
qed

lemma schedInv_startBotResume: "schedInv s \<Longrightarrow> schedInv (snd (startBotResume outcome s))"
proof -
  assume a: "schedInv s"
  have c: "schedInv (startBotCatch e s)" for e
    using a by (simp add: startBotCatch_def Let_def schedInv_showToast)
  have t: "schedInv (snd (startBotTry outcome s))"
    using a
    by (simp add: startBotTry_def Let_def schedInv_showToast
          split: botOutcome.splits parsed.splits)
  from startBotResume_cases [of outcome s] show ?thesis
  proof
    assume "startBotResume outcome s = (Returned, leaveRunning (snd (startBotTry outcome s)))"
    with t show ?thesis by simp
  next
    assume "\<exists>e. startBotTry outcome s = (Threw e, s) \<and>
        startBotResume outcome s = (Returned, leaveRunning (startBotCatch e s))"
    with c show ?thesis by auto
  qed
qed

lemma schedInv_startBot: "schedInv s \<Longrightarrow> schedInv (snd (startBot v s))"
  by (cases v)
     (simp_all add: startBot_def startBotSimulated_def Let_def schedInv_startAutoRefresh
        split: option.splits)

lemma schedInv_stopBot: "schedInv s \<Longrightarrow> schedInv (snd (stopBot s))"
  using clearScheduledTask_clears
  by (simp add: stopBot_def Let_def split: option.splits)

lemma schedInv_handled: "schedInv (snd r) \<Longrightarrow> schedInv (handled r)"
  by (cases r) (simp add: handled_def split: completion.splits)

lemma schedInv_scheduleBot:
  assumes "schedInv s"
  shows "schedInv (snd (scheduleBot v ms s))"
proof -
  let ?c = "clearScheduledTask s"
  let ?n = "(snd (setTimer ScheduleTick ms True ?c))\<lparr>scheduledTask := Some (nextTimerId ?c)\<rparr>"
  from clearScheduledTask_clears [OF assms] have n: "schedInv ?n"
    using schedInv_newSchedule by blast
  then have "schedInv (snd (startBot v ?n))" by (rule schedInv_startBot)
  with n show ?thesis
    by (simp add: scheduleBot_def setTimer_def Let_def)
qed

lemma schedInv_enableSchedule: "schedInv s \<Longrightarrow> schedInv (snd (enableSchedule v s))"
proof -
  assume a: "schedInv s"
  let ?r = "scheduleBot v (millisecondsOf (intervalOf (scheduleIntervalValue s))
                (scheduleUnitValue s)) s"
  have "schedInv (snd ?r)" using a by (rule schedInv_scheduleBot)
  with a show ?thesis
    by (cases ?r; cases "fst ?r") (simp_all add: enableSchedule_def Let_def)
qed

lemma schedInv_scheduleTick: "schedInv s \<Longrightarrow> schedInv (snd (scheduleTick v s))"
proof -
  assume a: "schedInv s"
  then have "schedInv (snd (startBot v s))" by (rule schedInv_startBot)
  with a show ?thesis
    by (cases "startBot v s"; cases "fst (startBot v s)") (simp_all add: scheduleTick_def)
qed

lemma schedInv_fireTimer:
  assumes "schedInv s" and "t \<in> set (timers s)"
  shows "schedInv (fireTimer v t s)"
proof -
  let ?s1 = "if timerRepeats t then s else clearInterval (timerId t) s"
  have s1: "schedInv ?s1" using assms by (rule schedInv_fired)
  show ?thesis
  proof (cases "timerCallback t")
    case AutoRefreshTick
    with s1 show ?thesis by (simp add: fireTimer_def Let_def)
  next
    case ScheduleTick
    with s1 show ?thesis
      by (simp add: fireTimer_def Let_def schedInv_handled schedInv_scheduleTick)
  next
    case (ToastFade k)
    with s1 show ?thesis
      by (simp add: fireTimer_def Let_def schedInv_addTimer)
  next
    case (ToastRemove k)
    with s1 show ?thesis by (simp add: fireTimer_def Let_def)
  qed
qed

lemma schedInv_step: "schedInv s \<Longrightarrow> schedInv (step v e s)"
proof (cases e)
  case (TimerFires h)
  assume a: "schedInv s"
  show ?thesis
  proof (cases "find (\<lambda>t. timerId t = h) (timers s)")
    case None
    with a TimerFires show ?thesis by simp
  next
    case (Some t)
    then have "t \<in> set (timers s)" by (auto simp: find_Some_iff)
    with a have "schedInv (fireTimer v t s)" by (rule schedInv_fireTimer)
    with Some TimerFires show ?thesis by simp
  qed
qed (simp_all add: schedInv_startAutoRefresh schedInv_stopAutoRefresh schedInv_handled
       schedInv_startBot schedInv_stopBot schedInv_enableSchedule clearScheduledTask_clears
       handleScheduleToggle_def updateScheduleIfEnabled_def disableSchedule_def
       schedInv_startBotResume)

lemma schedInv_run: "schedInv s \<Longrightarrow> schedInv (run v events s)"
  unfolding run_def by (induction events arbitrary: s) (simp_all add: schedInv_step)

lemma constructed_schedInv: "constructed s \<Longrightarrow> schedInv s"
  by (simp add: constructed_def schedInv_def timersOk_def timerView_def)

subsection \<open>The loading invariant\<close>

lemma loadView_frame [simp]:
  "loadView (setStatus a b s) = loadView s"
  "loadView (showError a s) = loadView s"
  "loadView (hideError s) = loadView s"
  "loadView (addLogEntry a b s) = loadView s"
  "loadView (clearLogs s) = loadView s"
  "loadView (displayLogs a s) = loadView s"
  "loadView (updateStats v a s) = loadView s"
  "loadView (enterRunning s) = loadView s"
  "loadView (leaveRunning s) = loadView s"
  "loadView (removeToast k s) = loadView s"
  "loadView (showToast a b s) = loadView s"
  "loadView (snd (setTimer cb d r s)) = loadView s"
  "loadView (clearInterval h s) = loadView s"
  "loadView (clearScheduledTask s) = loadView s"
  "loadView (stopAutoRefresh s) = loadView s"
  "loadView (startBotNetworked s) = loadView s"
  "loadView (startBotCatch e s) = loadView s"
  "loadView (loadLogsCatch v e s) = loadView s"
  by (simp_all add: loadView_def setStatus_def showError_def hideError_def addLogEntry_def
        clearLogs_def displayLogs_def updateStats_def enterRunning_def leaveRunning_def
        removeToast_def showToast_def setTimer_def clearInterval_def clearScheduledTask_def
        stopAutoRefresh_def startBotNetworked_def startBotCatch_def loadLogsCatch_def Let_def
        split: variant.splits option.splits)

lemma loadView_fields [simp]:
  "loadView (s\<lparr>logContent := a1\<rparr>) = loadView s"
  "loadView (s\<lparr>console := a2\<rparr>) = loadView s"
  "loadView (s\<lparr>uncaught := a3\<rparr>) = loadView s"
  "loadView (s\<lparr>clock := a4\<rparr>) = loadView s"
  "loadView (s\<lparr>pendingBots := a6\<rparr>) = loadView s"
  "loadView (s\<lparr>scheduleEnabledChecked := a7\<rparr>) = loadView s"
  "loadView (s\<lparr>scheduleIntervalValue := a8\<rparr>) = loadView s"
  "loadView (s\<lparr>scheduleUnitValue := a9\<rparr>) = loadView s"
  "loadView (s\<lparr>autoRefreshChecked := b1\<rparr>) = loadView s"
  "loadView (s\<lparr>toasts := b3\<rparr>) = loadView s"
  "loadView (s\<lparr>scheduledTask := b4\<rparr>) = loadView s"
  "loadView (s\<lparr>autoRefreshInterval := b5\<rparr>) = loadView s"
  by (simp_all add: loadView_def)

lemma loadInv_loadLogs: "loadInv s \<Longrightarrow> loadInv (loadLogs v s)"
  by (auto simp: loadInv_def loadView_def loadLogs_def setStatus_def hideError_def Let_def
        split: variant.splits)

lemma loadLogsResume_settles:
  "fst (loadLogsResume v outcome s) = Returned \<and>
   \<not> isLoading (snd (loadLogsResume v outcome s)) \<and>
   pendingLogs (snd (loadLogsResume v outcome s)) = pendingLogs s \<and>
   scheduleBtn (snd (loadLogsResume v outcome s)) = scheduleBtn s"
proof -
  have t: "loadView (snd (loadLogsTry v outcome s)) = loadView s"
    by (simp add: loadLogsTry_def Let_def split: logsOutcome.splits body.splits variant.splits)
  obtain c s1 where r: "loadLogsTry v outcome s = (c, s1)" by (cases "loadLogsTry v outcome s")
  with t have s1: "loadView s1 = loadView s" by simp
  show ?thesis
  proof (cases c)
    case Returned
    with r s1 show ?thesis
      by (simp add: loadLogsResume_def loadLogsFinally_def loadView_def)
  next
    case (Threw e)
    have "loadView (loadLogsCatch v e s1) = loadView s" using s1 by simp
    with r Threw show ?thesis
      by (simp add: loadLogsResume_def loadLogsFinally_def loadView_def)
  qed
qed

lemma loadInv_settled:
  assumes "loadInv s" and "0 < pendingLogs s"
  shows "loadInv (handled (loadLogsResume v outcome (s\<lparr>pendingLogs := pendingLogs s - Suc 0\<rparr>)))"
proof -
  let ?r = "loadLogsResume v outcome (s\<lparr>pendingLogs := pendingLogs s - Suc 0\<rparr>)"
  from assms have "pendingLogs s = 1" "scheduleBtn s = None"
    by (auto simp: loadInv_def loadView_def split: if_splits)
  then have "loadInv (snd ?r)"
    using loadLogsResume_settles [of v outcome "s\<lparr>pendingLogs := pendingLogs s - Suc 0\<rparr>"]
    by (simp add: loadInv_def loadView_def)
  moreover have "fst ?r = Returned" using loadLogsResume_settles by blast
  ultimately show ?thesis by (cases ?r) (simp add: handled_def)
qed

lemma loadInv_frame [simp]:
  "loadInv (setStatus a b s) = loadInv s"
  "loadInv (addLogEntry a b s) = loadInv s"
  "loadInv (clearLogs s) = loadInv s"
  "loadInv (enterRunning s) = loadInv s"
  "loadInv (leaveRunning s) = loadInv s"
  "loadInv (removeToast k s) = loadInv s"
  "loadInv (showToast a b s) = loadInv s"
  "loadInv (showError a s) = loadInv s"
  "loadInv (snd (setTimer cb d r s)) = loadInv s"
  "loadInv (clearInterval h s) = loadInv s"
  "loadInv (clearScheduledTask s) = loadInv s"
  "loadInv (stopAutoRefresh s) = loadInv s"
  "loadInv (startBotNetworked s) = loadInv s"
  "loadInv (startBotCatch e s) = loadInv s"
  "loadInv (s\<lparr>uncaught := a3\<rparr>) = loadInv s"
  "loadInv (s\<lparr>clock := a4\<rparr>) = loadInv s"
  "loadInv (s\<lparr>pendingBots := a6\<rparr>) = loadInv s"
  "loadInv (s\<lparr>scheduleEnabledChecked := a7\<rparr>) = loadInv s"
  "loadInv (s\<lparr>scheduleIntervalValue := a8\<rparr>) = loadInv s"
  "loadInv (s\<lparr>scheduleUnitValue := a9\<rparr>) = loadInv s"
  "loadInv (s\<lparr>autoRefreshChecked := b1\<rparr>) = loadInv s"
  "loadInv (s\<lparr>toasts := b3\<rparr>) = loadInv s"
  "loadInv (s\<lparr>scheduledTask := b4\<rparr>) = loadInv s"
  "loadInv (s\<lparr>autoRefreshInterval := b5\<rparr>) = loadInv s"
  by (simp_all add: loadInv_def)

lemma loadInv_startAutoRefresh: "loadInv s \<Longrightarrow> loadInv (startAutoRefresh v s)"
  by (simp add: startAutoRefresh_def case_prod_beta loadInv_loadLogs)

lemma loadInv_startBot: "loadInv s \<Longrightarrow> loadInv (snd (startBot v s))"
proof (cases v)
  case Networked
  assume "loadInv s"
  with Networked show ?thesis by (simp add: startBot_def)
next
  case Simulated
  assume a: "loadInv s"
  then have "scheduleBtn (enterRunning s) = None"
    by (simp add: loadInv_def loadView_def enterRunning_def)
  with a Simulated show ?thesis
    by (simp add: startBot_def startBotSimulated_def Let_def)
qed

lemma stopBot_throws:
  "isBotRunning s \<Longrightarrow> scheduleBtn s = None \<Longrightarrow>
     stopBot s = (Threw undefinedDisabled, leaveRunning s)"
  by (simp add: stopBot_def leaveRunning_def)

lemma loadInv_stopBot: "loadInv s \<Longrightarrow> loadInv (snd (stopBot s))"
proof -
  assume a: "loadInv s"
  then have "scheduleBtn (leaveRunning s) = None"
    by (simp add: loadInv_def loadView_def leaveRunning_def)
  with a show ?thesis by (simp add: stopBot_def Let_def)
qed

lemma loadInv_startBotResume: "loadInv s \<Longrightarrow> loadInv (snd (startBotResume outcome s))"
proof -
  assume a: "loadInv s"
  have t: "loadInv (snd (startBotTry outcome s))"
    using a by (simp add: startBotTry_def Let_def split: botOutcome.splits parsed.splits)
  from startBotResume_cases [of outcome s] show ?thesis
  proof
    assume "startBotResume outcome s = (Returned, leaveRunning (snd (startBotTry outcome s)))"
    with t show ?thesis by simp
  next
    assume "\<exists>e. startBotTry outcome s = (Threw e, s) \<and>
        startBotResume outcome s = (Returned, leaveRunning (startBotCatch e s))"
    with a show ?thesis by auto
  qed
qed

lemma loadInv_handled: "loadInv (snd r) \<Longrightarrow> loadInv (handled r)"
  by (cases r) (simp add: handled_def split: completion.splits)

lemma loadInv_scheduleBot: "loadInv s \<Longrightarrow> loadInv (snd (scheduleBot v ms s))"
  by (simp add: scheduleBot_def case_prod_beta Let_def loadInv_startBot)

lemma loadInv_enableSchedule: "loadInv s \<Longrightarrow> loadInv (snd (enableSchedule v s))"
proof -
  assume a: "loadInv s"
  let ?r = "scheduleBot v (millisecondsOf (intervalOf (scheduleIntervalValue s))
                (scheduleUnitValue s)) s"
  have "loadInv (snd ?r)" using a by (rule loadInv_scheduleBot)
  with a show ?thesis
    by (cases ?r; cases "fst ?r") (simp_all add: enableSchedule_def Let_def)
qed

lemma loadInv_scheduleTick: "loadInv s \<Longrightarrow> loadInv (snd (scheduleTick v s))"
proof -
  assume a: "loadInv s"
  then have "loadInv (snd (startBot v s))" by (rule loadInv_startBot)
  with a show ?thesis
    by (cases "startBot v s"; cases "fst (startBot v s)") (simp_all add: scheduleTick_def)
qed

lemma loadInv_fireTimer: "loadInv s \<Longrightarrow> loadInv (fireTimer v t s)"
  by (cases "timerCallback t")
     (simp_all add: fireTimer_def Let_def loadInv_loadLogs loadInv_handled
        loadInv_scheduleTick)

lemma loadInv_step: "loadInv s \<Longrightarrow> loadInv (step v e s)"
  by (cases e)
     (simp_all add: loadInv_loadLogs loadInv_startAutoRefresh loadInv_handled
        loadInv_startBot loadInv_stopBot loadInv_enableSchedule loadInv_settled
        loadInv_startBotResume loadInv_fireTimer handleScheduleToggle_def
        updateScheduleIfEnabled_def disableSchedule_def split: option.splits)

lemma loadInv_run: "loadInv s \<Longrightarrow> loadInv (run v events s)"
  unfolding run_def by (induction events arbitrary: s) (simp_all add: loadInv_step)

lemma constructed_loadInv: "constructed s \<Longrightarrow> loadInv s"
  by (simp add: constructed_def loadInv_def loadView_def)

subsection \<open>The schedule, the start guard and the log fetch\<close>

lemma constructed_examplePage: "constructed examplePage"
  by (simp add: constructed_def examplePage_def)

lemma startBot_keeps_timers:
  assumes "loadInv s"
  shows "timerView (snd (startBot v s)) = timerView s"
proof (cases v)
  case Networked
  then show ?thesis by (simp add: startBot_def)
next
  case Simulated
  from assms have "scheduleBtn (enterRunning s) = None"
    by (simp add: loadInv_def loadView_def enterRunning_def)
  with Simulated show ?thesis
    by (simp add: startBot_def startBotSimulated_def Let_def)
qed

lemma startBot_starts:
  assumes "loadInv s" and "\<not> isBotRunning s"
  shows "isBotRunning (snd (startBot v s)) \<and>
         (v = Networked \<longrightarrow> requests (snd (startBot v s)) = requests s @ [botUrl])"
proof (cases v)
  case Networked
  with assms(2) show ?thesis
    by (simp add: startBot_def startBotNetworked_def enterRunning_def setStatus_def Let_def)
next
  case Simulated
  from assms have "scheduleBtn (enterRunning s) = None"
    by (simp add: loadInv_def loadView_def enterRunning_def)
  with Simulated assms(2) show ?thesis
    by (simp add: startBot_def startBotSimulated_def Let_def enterRunning_def)
qed

lemma scheduleBot_one_timer:
  assumes "schedInv s" and "loadInv s"
  shows "\<exists>t. scheduleTimers (snd (scheduleBot v ms s)) = [t] \<and> timerDelay t = ms \<and>
             timerRepeats t \<and> timerId t \<notin> timerId ` set (timers s) \<and>
             scheduledTask (snd (scheduleBot v ms s)) = Some (timerId t)"
proof -
  let ?c = "clearScheduledTask s"
  let ?t = "\<lparr>timerId = nextTimerId ?c, timerCallback = ScheduleTick, timerDelay = ms,
             timerRepeats = True\<rparr>"
  let ?n = "(snd (setTimer ScheduleTick ms True ?c))\<lparr>scheduledTask := Some (nextTimerId ?c)\<rparr>"
  from clearScheduledTask_clears [OF assms(1)]
  have c: "scheduleTimers ?c = []" by blast
  have nx: "nextTimerId ?c = nextTimerId s"
    by (simp add: clearScheduledTask_def clearInterval_def split: option.splits)
  have fresh: "nextTimerId s \<notin> timerId ` set (timers s)"
    using assms(1) by (auto simp: schedInv_def timersOk_def timerView_def)
  have n: "timerView ?n = (timers ?c @ [?t], Suc (nextTimerId ?c), Some (nextTimerId ?c),
                          autoRefreshInterval ?c)"
    by (simp add: timerView_def setTimer_def)
  have l: "loadInv ?n" using assms(2) by simp
  have v: "timerView (snd (scheduleBot v ms s)) = timerView ?n"
    using startBot_keeps_timers [OF l, of v]
    by (simp add: scheduleBot_def case_prod_beta Let_def setTimer_def)
  from v n have "timers (snd (scheduleBot v ms s)) = timers ?c @ [?t]"
    and "scheduledTask (snd (scheduleBot v ms s)) = Some (nextTimerId ?c)"
    by (simp_all add: timerView_def)
  with c nx fresh show ?thesis by (simp add: scheduleTimers_def)
qed

lemma scheduleBot_triggers:
  assumes "loadInv s"
  shows "(\<not> isBotRunning s \<longrightarrow> isBotRunning (snd (scheduleBot v ms s)) \<and>
            (v = Networked \<longrightarrow> requests (snd (scheduleBot v ms s)) = requests s @ [botUrl])) \<and>
         (isBotRunning s \<longrightarrow> requests (snd (scheduleBot v ms s)) = requests s)"
proof -
  let ?c = "clearScheduledTask s"
  let ?n = "(snd (setTimer ScheduleTick ms True ?c))\<lparr>scheduledTask := Some (nextTimerId ?c)\<rparr>"
  have r: "isBotRunning ?n = isBotRunning s" "requests ?n = requests s"
    by (simp_all add: setTimer_def clearScheduledTask_def clearInterval_def split: option.splits)
  have l: "loadInv ?n" using assms by simp
  have e: "scheduleBot v ms s = (if \<not> isBotRunning s then startBot v ?n else (Returned, ?n))"
    using r(1) by (simp add: scheduleBot_def case_prod_beta Let_def setTimer_def)
  show ?thesis
  proof (cases "isBotRunning s")
    case True
    with e r show ?thesis by simp
  next
    case False
    with r have "\<not> isBotRunning ?n" by simp
    from startBot_starts [OF l this, of v] e False r show ?thesis by auto
  qed
qed

lemma enableSchedule_accepted:
  assumes "1000 \<le> acceptedMs s"
  shows "timerView (snd (enableSchedule v s)) = timerView (snd (scheduleBot v (acceptedMs s) s)) \<and>
         requests (snd (enableSchedule v s)) = requests (snd (scheduleBot v (acceptedMs s) s)) \<and>
         isBotRunning (snd (enableSchedule v s)) = isBotRunning (snd (scheduleBot v (acceptedMs s) s))"
proof -
  let ?r = "scheduleBot v (acceptedMs s) s"
  from assms have "\<not> acceptedMs s < 1000" by simp
  then show ?thesis
    by (cases ?r; cases "fst ?r")
       (simp_all add: enableSchedule_def Let_def acceptedMs_def [symmetric] addLogEntry_def
          timerView_def)
qed

lemma scheduleTimers_view:
  "timerView s' = timerView s \<Longrightarrow> scheduleTimers s' = scheduleTimers s \<and>
     scheduledTask s' = scheduledTask s"
  by (simp add: timerView_def scheduleTimers_def)

lemma schedInv_at_most_one: "schedInv s \<Longrightarrow> length (scheduleTimers s) \<le> 1"
proof -
  assume "schedInv s"
  then have "map timerId (scheduleTimers s) = (case scheduledTask s of None \<Rightarrow> [] | Some h \<Rightarrow> [h])"
    by (simp add: schedInv_def timersOk_def timerView_def scheduleTimers_def)
  then have "length (map timerId (scheduleTimers s)) \<le> 1" by (simp split: option.splits)
  then show ?thesis by simp
qed

text \<open>
  Claim C6. In every state that the page reaches from its construction, at most one
  schedule timer is live. Clearing the scheduled task leaves none; an accepted
  \<^verbatim>\<open>enableSchedule\<close> leaves exactly one, a new repeating timer with the period just
  computed, held by \<^const>\<open>scheduledTask\<close>; it starts a bot run when none is running (in
  the networked variant with one request to the trigger URL) and sends nothing when
  one is running. A change of the interval or of the unit while the schedule is
  enabled runs \<^verbatim>\<open>enableSchedule\<close> again.
\<close>

theorem single_schedule_timer:
  assumes "constructed s0" and "s = run v events s0"
  shows "length (scheduleTimers s) \<le> 1 \<and>
         scheduleTimers (clearScheduledTask s) = [] \<and>
         (1000 \<le> acceptedMs s \<longrightarrow>
            (\<exists>t. scheduleTimers (snd (enableSchedule v s)) = [t] \<and> timerDelay t = acceptedMs s \<and>
                 timerRepeats t \<and> timerId t \<notin> timerId ` set (timers s) \<and>
                 scheduledTask (snd (enableSchedule v s)) = Some (timerId t)) \<and>
            (\<not> isBotRunning s \<longrightarrow> isBotRunning (snd (enableSchedule v s)) \<and>
               (v = Networked \<longrightarrow>
                  requests (snd (enableSchedule v s)) = requests s @ [botUrl])) \<and>
            (isBotRunning s \<longrightarrow> requests (snd (enableSchedule v s)) = requests s)) \<and>
         (scheduleEnabledChecked s \<longrightarrow>
            step v (ChangeScheduleInterval text) s =
              handled (enableSchedule v (s\<lparr>scheduleIntervalValue := text\<rparr>)) \<and>
            step v (ChangeScheduleUnit text) s =
              handled (enableSchedule v (s\<lparr>scheduleUnitValue := text\<rparr>)))"
proof -
  from assms have si: "schedInv s" and li: "loadInv s"
    by (simp_all add: constructed_schedInv constructed_loadInv schedInv_run loadInv_run)
  have 1: "length (scheduleTimers s) \<le> 1" using si by (rule schedInv_at_most_one)
  have 2: "scheduleTimers (clearScheduledTask s) = []"
    using clearScheduledTask_clears [OF si] by blast
  have 3: "(\<exists>t. scheduleTimers (snd (enableSchedule v s)) = [t] \<and> timerDelay t = acceptedMs s \<and>
                 timerRepeats t \<and> timerId t \<notin> timerId ` set (timers s) \<and>
                 scheduledTask (snd (enableSchedule v s)) = Some (timerId t)) \<and>
            (\<not> isBotRunning s \<longrightarrow> isBotRunning (snd (enableSchedule v s)) \<and>
               (v = Networked \<longrightarrow>
                  requests (snd (enableSchedule v s)) = requests s @ [botUrl])) \<and>
            (isBotRunning s \<longrightarrow> requests (snd (enableSchedule v s)) = requests s)"
    if a: "1000 \<le> acceptedMs s"
  proof -
    note e = enableSchedule_accepted [OF a, of v]
    from e have sv: "scheduleTimers (snd (enableSchedule v s)) =
        scheduleTimers (snd (scheduleBot v (acceptedMs s) s))"
      "scheduledTask (snd (enableSchedule v s)) =
        scheduledTask (snd (scheduleBot v (acceptedMs s) s))"
      using scheduleTimers_view by blast+
    from scheduleBot_one_timer [OF si li, of v "acceptedMs s"] sv
    have p1: "\<exists>t. scheduleTimers (snd (enableSchedule v s)) = [t] \<and> timerDelay t = acceptedMs s \<and>
                 timerRepeats t \<and> timerId t \<notin> timerId ` set (timers s) \<and>
                 scheduledTask (snd (enableSchedule v s)) = Some (timerId t)" by simp
    from scheduleBot_triggers [OF li, of v "acceptedMs s"] e
    have p2: "(\<not> isBotRunning s \<longrightarrow> isBotRunning (snd (enableSchedule v s)) \<and>
               (v = Networked \<longrightarrow>
                  requests (snd (enableSchedule v s)) = requests s @ [botUrl])) \<and>
            (isBotRunning s \<longrightarrow> requests (snd (enableSchedule v s)) = requests s)" by auto
    from p1 p2 show ?thesis by blast
  qed
  have 4: "step v (ChangeScheduleInterval text) s =
              handled (enableSchedule v (s\<lparr>scheduleIntervalValue := text\<rparr>)) \<and>
            step v (ChangeScheduleUnit text) s =
              handled (enableSchedule v (s\<lparr>scheduleUnitValue := text\<rparr>))"
    if "scheduleEnabledChecked s"
    using that by (simp add: updateScheduleIfEnabled_def)
  from 1 2 3 4 show ?thesis by blast
qed

text \<open>
  Witness for C6: a new page, where enabling the schedule starts a run, and the page
  after the schedule has been switched on, where a change of the unit applies the
  schedule again.
\<close>

theorem single_schedule_timer_witness:
  "constructed examplePage \<and>
   1000 \<le> acceptedMs examplePage \<and> \<not> isBotRunning examplePage \<and>
   isBotRunning (snd (enableSchedule Networked examplePage)) \<and>
   requests (snd (enableSchedule Networked examplePage)) = requests examplePage @ [botUrl] \<and>
   1000 \<le> acceptedMs (run Networked [ChangeScheduleEnabled True] examplePage) \<and>
   scheduleEnabledChecked (run Networked [ChangeScheduleEnabled True] examplePage) \<and>
   isBotRunning (run Networked [ChangeScheduleEnabled True] examplePage) \<and>
   length (scheduleTimers (run Networked [ChangeScheduleEnabled True] examplePage)) \<le> 1 \<and>
   (\<exists>t. scheduleTimers (snd (enableSchedule Networked
              (run Networked [ChangeScheduleEnabled True] examplePage))) = [t] \<and>
        timerDelay t = acceptedMs (run Networked [ChangeScheduleEnabled True] examplePage)) \<and>
   requests (snd (enableSchedule Networked
              (run Networked [ChangeScheduleEnabled True] examplePage))) =
     requests (run Networked [ChangeScheduleEnabled True] examplePage) \<and>
   step Networked (ChangeScheduleUnit ''hours'')
       (run Networked [ChangeScheduleEnabled True] examplePage) =
     handled (enableSchedule Networked
       ((run Networked [ChangeScheduleEnabled True] examplePage)
          \<lparr>scheduleUnitValue := ''hours''\<rparr>))"
proof -
  let ?s = "run Networked [ChangeScheduleEnabled True] examplePage"
  have h1: "constructed examplePage" by (rule constructed_examplePage)
  have e: "examplePage = run Networked [] examplePage" by (simp add: run_def)
  have g2: "1000 \<le> acceptedMs examplePage" by code_simp
  have g4: "\<not> isBotRunning examplePage" by code_simp
  have h2: "1000 \<le> acceptedMs ?s" by code_simp
  have h3: "scheduleEnabledChecked ?s" by code_simp
  have h4: "isBotRunning ?s" by code_simp
  from single_schedule_timer [OF h1 e, of "''hours''"] g2 g4
  have a: "isBotRunning (snd (enableSchedule Networked examplePage)) \<and>
    requests (snd (enableSchedule Networked examplePage)) = requests examplePage @ [botUrl]"
    by blast
  from single_schedule_timer [OF h1 refl, of Networked "[ChangeScheduleEnabled True]" "''hours''"]
    h2 h3 h4
  have b: "length (scheduleTimers ?s) \<le> 1 \<and>
    (\<exists>t. scheduleTimers (snd (enableSchedule Networked ?s)) = [t] \<and>
        timerDelay t = acceptedMs ?s) \<and>
    requests (snd (enableSchedule Networked ?s)) = requests ?s \<and>
    step Networked (ChangeScheduleUnit ''hours'') ?s =
      handled (enableSchedule Networked (?s\<lparr>scheduleUnitValue := ''hours''\<rparr>))"
    by blast
  from a b h1 g2 g4 h2 h3 h4 show ?thesis by (intro conjI) blast+
qed

text \<open>
  Claim C9. In a state where the bot is running, \<^verbatim>\<open>startBot()\<close> returns at once with
  the state as it was, in both variants: no request is added and no control changes.
\<close>

theorem startBot_while_running_noop:
  assumes "isBotRunning s"
  shows "startBot v s = (Returned, s) \<and> step v ClickStartBot s = s \<and>
         requests (snd (startBot v s)) = requests s \<and>
         pendingBots (snd (startBot v s)) = pendingBots s"
proof -
  have "startBot v s = (Returned, s)" using assms by (rule startBot_running_noop)
  then show ?thesis by (simp add: handled_def)
qed

text \<open>
  Witness for C9: the page after one networked start.
\<close>

theorem startBot_while_running_noop_witness:
  "isBotRunning (startBotNetworked examplePage) \<and>
   startBot Networked (startBotNetworked examplePage) = (Returned, startBotNetworked examplePage) \<and>
   requests (snd (startBot Networked (startBotNetworked examplePage))) = [botUrl]"
proof -
  have h: "isBotRunning (startBotNetworked examplePage)" by code_simp
  have r: "requests (startBotNetworked examplePage) = [botUrl]" by code_simp
  from startBot_while_running_noop [OF h, of Networked] h r show ?thesis by simp
qed

text \<open>
  Claim C4. A call of \<^verbatim>\<open>loadLogs()\<close> while the loading flag is set changes nothing;
  two calls in a row from a state that is not loading send one request; the settlement
  of the fetch, whatever it is, ends without an exception and with the flag cleared;
  and in every state that the page reaches from its construction at most one log fetch
  is pending, exactly when the flag is set.
\<close>

theorem loadLogs_single_flight:
  "(isLoading s \<longrightarrow> loadLogs v s = s) \<and>
   (\<not> isLoading s \<longrightarrow>
      isLoading (loadLogs v s) \<and>
      requests (loadLogs v (loadLogs v s)) = requests s @ [logsUrl v] \<and>
      pendingLogs (loadLogs v (loadLogs v s)) = Suc (pendingLogs s)) \<and>
   fst (loadLogsResume v outcome s) = Returned \<and>
   \<not> isLoading (snd (loadLogsResume v outcome s)) \<and>
   (constructed s0 \<longrightarrow>
      pendingLogs (run v events s0) \<le> 1 \<and>
      (isLoading (run v events s0) \<longleftrightarrow> pendingLogs (run v events s0) = 1))"
proof (intro conjI impI)
  assume "isLoading s"
  then show "loadLogs v s = s" by (simp add: loadLogs_def)
next
  assume n: "\<not> isLoading s"
  then show l: "isLoading (loadLogs v s)"
    by (cases v) (simp_all add: loadLogs_def Let_def setStatus_def hideError_def)
  have r: "requests (loadLogs v s) = requests s @ [logsUrl v]"
    and p: "pendingLogs (loadLogs v s) = Suc (pendingLogs s)"
    using n by (cases v; simp add: loadLogs_def Let_def setStatus_def hideError_def)+
  from l have "loadLogs v (loadLogs v s) = loadLogs v s" by (simp add: loadLogs_def)
  with r p show "requests (loadLogs v (loadLogs v s)) = requests s @ [logsUrl v]"
    and "pendingLogs (loadLogs v (loadLogs v s)) = Suc (pendingLogs s)" by simp_all
next
  show "fst (loadLogsResume v outcome s) = Returned"
    and "\<not> isLoading (snd (loadLogsResume v outcome s))"
    using loadLogsResume_settles [of v outcome s] by simp_all
next
  assume "constructed s0"
  then have "loadInv (run v events s0)" by (simp add: constructed_loadInv loadInv_run)
  then show "pendingLogs (run v events s0) \<le> 1"
    and "isLoading (run v events s0) \<longleftrightarrow> pendingLogs (run v events s0) = 1"
    by (auto simp: loadInv_def loadView_def split: if_splits)
qed

text \<open>
  Witness for C4: two clicks on the refresh button of a new page.
\<close>

theorem loadLogs_single_flight_witness:
  "\<not> isLoading examplePage \<and> constructed examplePage \<and>
   requests (loadLogs Networked (loadLogs Networked examplePage)) = [logsUrl Networked] \<and>
   pendingLogs (run Networked [ClickRefresh, ClickRefresh] examplePage) \<le> 1 \<and>
   isLoading (loadLogs Networked examplePage) \<and>
   loadLogs Networked (loadLogs Networked examplePage) = loadLogs Networked examplePage"
proof -
  have h: "\<not> isLoading examplePage" by (simp add: examplePage_def)
  have r: "requests examplePage = []" by (simp add: examplePage_def)
  note t = loadLogs_single_flight [of examplePage Networked "LogsFetchRejected (Exn [] [])" examplePage
                   "[ClickRefresh, ClickRefresh]"]
  note u = loadLogs_single_flight [of "loadLogs Networked examplePage" Networked
                   "LogsFetchRejected (Exn [] [])" examplePage "[]"]
  from t h have l: "isLoading (loadLogs Networked examplePage)" by blast
  with u have "loadLogs Networked (loadLogs Networked examplePage) = loadLogs Networked examplePage"
    by blast
  with t h r l constructed_examplePage show ?thesis by simp
qed

subsection \<open>The interval floor and the stop button\<close>

lemma intervalOf_default: "parseInt text = None \<Longrightarrow> intervalOf text = 5"
  by (simp add: intervalOf_def)

lemma intervalOf_examples:
  "intervalOf [] = 5" "intervalOf ''abc'' = 5" "intervalOf ''12'' = 12"
  "intervalOf ''0'' = 5"
  by code_simp+

lemma intervalOf_not_zero: "intervalOf text \<noteq> 0"
  by (simp add: intervalOf_def split: option.splits)

lemma below_floor_iff: "acceptedMs s < 1000 \<longleftrightarrow> intervalOf (scheduleIntervalValue s) < 0"
  using intervalOf_not_zero [of "scheduleIntervalValue s"]
  by (auto simp: acceptedMs_def millisecondsOf_def Let_def)

lemma enableSchedule_below_floor:
  assumes "acceptedMs s < 1000"
  shows "enableSchedule v s =
           (Returned, (showError ''Interval must be at least 1 second'' s)
                        \<lparr>scheduleEnabledChecked := False\<rparr>)"
    and "timers (snd (enableSchedule v s)) = timers s"
    and "\<not> scheduleEnabledChecked (snd (enableSchedule v s))"
    and "errorDisplay (snd (enableSchedule v s)) = ''flex''"
  using assms
  by (simp_all add: enableSchedule_def Let_def acceptedMs_def [symmetric] showError_def)

lemma one_hour: "millisecondsOf (intervalOf ''1'') ''hours'' = 3600000"
  by code_simp

text \<open>
  Claim C1, where the code departs from it. With the interval \<open>0\<close> and the unit
  \<open>seconds\<close>, \<^verbatim>\<open>parseInt(value) || 5\<close> is \<open>5\<close>: the schedule is accepted, the
  toggle stays on, no error is shown, and a timer of 5000 ms is created and a bot run
  triggered. The rest of the claim holds: \<open>enableSchedule_below_floor\<close>,
  \<open>one_hour\<close>, \<open>intervalOf_default\<close>; by \<open>below_floor_iff\<close> only a negative
  interval is below the floor.
\<close>

theorem enableSchedule_zero_accepted:
  "intervalOf ''0'' = 5 \<and>
   fst (enableSchedule Networked
          (examplePage\<lparr>scheduleIntervalValue := ''0'', scheduleUnitValue := ''seconds'',
                       scheduleEnabledChecked := True\<rparr>)) = Returned \<and>
   scheduleEnabledChecked (snd (enableSchedule Networked
          (examplePage\<lparr>scheduleIntervalValue := ''0'', scheduleUnitValue := ''seconds'',
                       scheduleEnabledChecked := True\<rparr>))) \<and>
   errorDisplay (snd (enableSchedule Networked
          (examplePage\<lparr>scheduleIntervalValue := ''0'', scheduleUnitValue := ''seconds'',
                       scheduleEnabledChecked := True\<rparr>))) = ''none'' \<and>
   map timerDelay (scheduleTimers (snd (enableSchedule Networked
          (examplePage\<lparr>scheduleIntervalValue := ''0'', scheduleUnitValue := ''seconds'',
                       scheduleEnabledChecked := True\<rparr>)))) = [5000] \<and>
   requests (snd (enableSchedule Networked
          (examplePage\<lparr>scheduleIntervalValue := ''0'', scheduleUnitValue := ''seconds'',
                       scheduleEnabledChecked := True\<rparr>))) = [botUrl]"
  by code_simp

lemma stopBot_throws_reachable:
  assumes "constructed s0" and "isBotRunning (run v events s0)"
  shows "stopBot (run v events s0) =
           (Threw undefinedDisabled, leaveRunning (run v events s0))"
proof -
  from assms(1) have "loadInv (run v events s0)"
    by (simp add: constructed_loadInv loadInv_run)
  then have "scheduleBtn (run v events s0) = None" by (simp add: loadInv_def loadView_def)
  with assms(2) show ?thesis by (rule stopBot_throws)
qed

text \<open>
  Claim C2, where the code departs from it. \<^const>\<open>stopBot\<close> called while the bot runs
  restores the five controls and then writes \<^verbatim>\<open>this.scheduleBtn.disabled\<close>, on a
  property that is \<^verbatim>\<open>undefined\<close>: a \<^verbatim>\<open>TypeError\<close> leaves the click listener, and the
  schedule is not cleared, no line is logged and the status is not set. By
  \<open>stopBot_throws_reachable\<close> this happens in every reachable running state.
\<close>

theorem stopBot_while_running_throws:
  "isBotRunning (startBotNetworked examplePage) \<and>
   stopBot (startBotNetworked examplePage) =
     (Threw undefinedDisabled, leaveRunning (startBotNetworked examplePage)) \<and>
   uncaught (run Networked [ClickStartBot, ClickStopBot] examplePage) = [undefinedDisabled]"
  by code_simp

end
